theory Spec2Isabelle
  imports Main "HOL-Library.Word" "HOL-Library.Sublist"
begin

section \<open>The palette section of a quest file: data\<close>

text \<open>
  The development follows \<^verbatim>\<open>readcolordata\<close> of \<^verbatim>\<open>zplload.c\<close>. The routine reads the
  palette section of a quest file from a \<^verbatim>\<open>PACKFILE\<close> and stores what it reads in three
  tables owned by its caller: the flat table of colour records \<^verbatim>\<open>colordata\<close>, the table of
  palette names \<^verbatim>\<open>palnames\<close> and the aggregate \<^verbatim>\<open>*Misc\<close>, of which it touches the colour
  cycles only.
\<close>

type_synonym byte = "8 word"
type_synonym word16 = "16 word"
type_synonym name_table = "nat \<Rightarrow> nat \<Rightarrow> byte"

text \<open>
  The format constants and \<^verbatim>\<open>init_palnames\<close> are declared outside \<^verbatim>\<open>zplload.c\<close>. They are
  parameters of the model: every general theorem below holds for all their values. Sizes and
  offsets are natural numbers; a difference of two of them is used by the source as a loop
  bound or as a length, where a negative value and the truncated difference \<open>0\<close> both mean
  that nothing is done, except for the length of a \<^verbatim>\<open>memset\<close>, where the theorems that
  depend on it assume the order of the offsets.
\<close>

record zdefs =
  oldpdTOTAL :: nat
  newpdTOTAL :: nat
  newerpdTOTAL :: nat
  oldpoSPRITE :: nat
  newpoSPRITE :: nat
  newerpoSPRITE :: nat
  PALNAMESIZE :: nat
  OLDMAXLEVELS :: nat
  MAXLEVELS :: nat
  init_palnames :: "name_table \<Rightarrow> name_table"

text \<open>One colour cycle, and the aggregate holding \<^verbatim>\<open>cycles[256][3]\<close> beside other fields.\<close>

record palcycle =
  first :: byte
  count :: byte
  speed :: byte

record 'a miscQdata =
  cycles :: "nat \<Rightarrow> nat \<Rightarrow> palcycle"
  others :: 'a

text \<open>
  The calls the routine makes to routines outside the file, in the order it makes them.
  The log is a ghost field: no definition reads it.
\<close>

datatype call = P_igetw | P_igetl | Pfread nat | P_getc | Init_palnames

text \<open>
  The state the routine works on: the stream \<^verbatim>\<open>f\<close>, the global tables and the caller's
  \<^verbatim>\<open>*Misc\<close>. The extents of \<^verbatim>\<open>colordata\<close> and \<^verbatim>\<open>palnames\<close> are declared outside the file:
  the model indexes both by natural numbers and sets no bound on them. The extent of the
  cycles, 256 by 3, is the one the loop of line 165 covers.
\<close>

record 'a env =
  packfile :: "byte list"
  colordata :: "nat \<Rightarrow> byte"
  palnames :: name_table
  Misc :: "'a miscQdata"
  calls :: "call list"

datatype status = qe_OK | qe_invalid

text \<open>
  A call either returns a status, or stores through an index beyond \<^verbatim>\<open>cycles[256]\<close>, which
  C leaves undefined: \<open>Fault i e\<close> is that store, with the index \<open>i\<close> and the state \<open>e\<close>
  in which it is attempted. The model stops there. A compiled routine may go on, with
  whatever lies behind the cycles overwritten, and return a status all the same: a theorem
  about the calls that return in the model says nothing about such a run.
\<close>

datatype 'a outcome =
  Return (status: status) (final: "'a env")
| Fault (index: nat) (final: "'a env")

definition returns :: "status \<Rightarrow> 'a outcome \<Rightarrow> bool" where
  "returns st r = (case r of Return s _ \<Rightarrow> s = st | Fault _ _ \<Rightarrow> False)"

definition returned :: "'a outcome \<Rightarrow> bool" where
  "returned r = (case r of Return _ _ \<Rightarrow> True | Fault _ _ \<Rightarrow> False)"

definition issued :: "'a env \<Rightarrow> 'a outcome \<Rightarrow> call list" where
  "issued e r = drop (length (calls e)) (calls (final r))"

section \<open>The stream reader\<close>

text \<open>
  Modelled from the spec: the readers \<^verbatim>\<open>pfread\<close>, \<^verbatim>\<open>p_getc\<close>, \<^verbatim>\<open>p_igetw\<close> and \<^verbatim>\<open>p_igetl\<close> are
  not in \<^verbatim>\<open>zplload.c\<close>. After section 6 of the specification and the header comment of the
  file they read, in sequence, a block of bytes, one byte, a 16-bit word and a 32-bit long,
  least significant byte first, and report failure when the stream ends. The stream is the
  list of the bytes still to be read. A failed read leaves the position where it was: the
  routine returns at once and never reads again.
\<close>

definition logged :: "call \<Rightarrow> 'a env \<Rightarrow> 'a env" where
  "logged c e = e\<lparr>calls := calls e @ [c]\<rparr>"

definition pfread :: "nat \<Rightarrow> 'a env \<Rightarrow> byte list option \<times> 'a env" where
  "pfread n e =
     (if n \<le> length (packfile e)
      then (Some (take n (packfile e)), (logged (Pfread n) e)\<lparr>packfile := drop n (packfile e)\<rparr>)
      else (None, logged (Pfread n) e))"

definition p_getc :: "'a env \<Rightarrow> byte option \<times> 'a env" where
  "p_getc e =
     (if 1 \<le> length (packfile e)
      then (Some (packfile e ! 0), (logged P_getc e)\<lparr>packfile := drop 1 (packfile e)\<rparr>)
      else (None, logged P_getc e))"

definition p_igetw :: "'a env \<Rightarrow> word16 option \<times> 'a env" where
  "p_igetw e =
     (if 2 \<le> length (packfile e)
      then (Some (word_cat (packfile e ! 1) (packfile e ! 0)),
            (logged P_igetw e)\<lparr>packfile := drop 2 (packfile e)\<rparr>)
      else (None, logged P_igetw e))"

definition p_igetl :: "'a env \<Rightarrow> 32 word option \<times> 'a env" where
  "p_igetl e =
     (if 4 \<le> length (packfile e)
      then (Some (word_rcat (rev (take 4 (packfile e)))),
            (logged P_igetl e)\<lparr>packfile := drop 4 (packfile e)\<rparr>)
      else (None, logged P_igetl e))"

section \<open>Block operations\<close>

text \<open>
  \<open>memcpy_buf m dst buf n\<close> is \<^verbatim>\<open>memcpy(m + dst, buf, n)\<close> from a local buffer,
  \<open>memcpy m dst src n\<close> is \<^verbatim>\<open>memcpy(m + dst, m + src, n)\<close> within the table (every byte of
  the source block is taken from the table as it is before the call: C defines the call for
  blocks that do not overlap only), \<open>memset m dst v n\<close> is \<^verbatim>\<open>memset(m + dst, v, n)\<close>.
  The two row operations are \<^verbatim>\<open>memcpy(palnames[i], buf, n)\<close> and
  \<^verbatim>\<open>memset(palnames[i], v, n)\<close>.
\<close>

definition memcpy_buf :: "(nat \<Rightarrow> byte) \<Rightarrow> nat \<Rightarrow> byte list \<Rightarrow> nat \<Rightarrow> nat \<Rightarrow> byte" where
  "memcpy_buf m dst buf n = (\<lambda>k. if dst \<le> k \<and> k < dst + n then buf ! (k - dst) else m k)"

definition memcpy :: "(nat \<Rightarrow> byte) \<Rightarrow> nat \<Rightarrow> nat \<Rightarrow> nat \<Rightarrow> nat \<Rightarrow> byte" where
  "memcpy m dst src n = (\<lambda>k. if dst \<le> k \<and> k < dst + n then m (src + (k - dst)) else m k)"

definition memset :: "(nat \<Rightarrow> byte) \<Rightarrow> nat \<Rightarrow> byte \<Rightarrow> nat \<Rightarrow> nat \<Rightarrow> byte" where
  "memset m dst v n = (\<lambda>k. if dst \<le> k \<and> k < dst + n then v else m k)"

definition memcpy_row :: "name_table \<Rightarrow> nat \<Rightarrow> byte list \<Rightarrow> nat \<Rightarrow> name_table" where
  "memcpy_row t i buf n = t(i := (\<lambda>k. if k < n then buf ! k else t i k))"

definition memset_row :: "name_table \<Rightarrow> nat \<Rightarrow> byte \<Rightarrow> nat \<Rightarrow> name_table" where
  "memset_row t i v n = t(i := (\<lambda>k. if k < n then v else t i k))"

section \<open>The decoder\<close>

subsection \<open>Section header (lines 32 to 51)\<close>

text \<open>The result carries \<^verbatim>\<open>s_version\<close>, which stays \<open>0\<close> when no header is read.\<close>

definition read_section_header ::
  "word16 \<Rightarrow> 'a env \<Rightarrow> 'a outcome + (word16 \<times> 'a env)" where
  "read_section_header version e =
     (if version > 0x192 then
        (case p_igetw e of
           (None, e1) \<Rightarrow> Inl (Return qe_invalid e1)
         | (Some s_version, e1) \<Rightarrow>
        (case p_igetw e1 of
           (None, e2) \<Rightarrow> Inl (Return qe_invalid e2)
         | (Some dummy, e2) \<Rightarrow>
        (case p_igetl e2 of
           (None, e3) \<Rightarrow> Inl (Return qe_invalid e3)
         | (Some dummy, e3) \<Rightarrow> Inr (s_version, e3))))
      else Inr (0, e))"

subsection \<open>Colour records (lines 54 to 121)\<close>

text \<open>
  The three loops that read colour records differ in the first slot they fill and in their
  bound only: \<open>read_colors keepdata base n i\<close> is the loop
  \<^verbatim>\<open>for(; i<n; ++i)\<close> that reads 48 bytes and, when \<^verbatim>\<open>keepdata\<close> holds, copies them to
  \<^verbatim>\<open>colordata[(base+i)*48]\<close>. \<open>Inl\<close> is the \<^verbatim>\<open>return\<close> out of the loop.
\<close>

function read_colors ::
  "bool \<Rightarrow> nat \<Rightarrow> nat \<Rightarrow> nat \<Rightarrow> 'a env \<Rightarrow> 'a outcome + 'a env" where
  "read_colors keepdata base n i e =
     (if i < n then
        (case pfread 48 e of
           (None, e') \<Rightarrow> Inl (Return qe_invalid e')
         | (Some temp_colordata, e') \<Rightarrow>
             read_colors keepdata base n (Suc i)
               (if keepdata
                then e'\<lparr>colordata := memcpy_buf (colordata e') ((base + i) * 48) temp_colordata 48\<rparr>
                else e'))
      else Inr e)"
  by pat_completeness auto
termination
  by (relation "measure (\<lambda>(keepdata, base, n, i, e). n - i)") auto

text \<open>Lines 73 to 78 and lines 102 to 103.\<close>

definition relocate_old :: "zdefs \<Rightarrow> (nat \<Rightarrow> byte) \<Rightarrow> nat \<Rightarrow> byte" where
  "relocate_old c m0 =
     (let m1 = memcpy m0 (newerpoSPRITE c * 48) (oldpoSPRITE c * 48) (30 * 16 * 3);
          m2 = memset m1 (oldpoSPRITE c * 48) 0 ((newerpoSPRITE c - oldpoSPRITE c) * 48);
          m3 = memcpy m2 ((newerpoSPRITE c + 11) * 48) ((newerpoSPRITE c + 10) * 48) 48;
          m4 = memcpy m3 ((newerpoSPRITE c + 10) * 48) ((newerpoSPRITE c + 9) * 48) 48;
          m5 = memcpy m4 ((newerpoSPRITE c + 9) * 48) ((newerpoSPRITE c + 8) * 48) 48
      in memset m5 ((newerpoSPRITE c + 8) * 48) 0 48)"

definition relocate_new :: "zdefs \<Rightarrow> (nat \<Rightarrow> byte) \<Rightarrow> nat \<Rightarrow> byte" where
  "relocate_new c m0 =
     (let m1 = memcpy m0 (newerpoSPRITE c * 48) (newpoSPRITE c * 48) (30 * 16 * 3)
      in memset m1 (newpoSPRITE c * 48) 0 ((newerpoSPRITE c - newpoSPRITE c) * 48))"

definition legacy_colors :: "word16 \<Rightarrow> word16 \<Rightarrow> bool" where
  "legacy_colors version build \<longleftrightarrow> version < 0x192 \<or> (version = 0x192 \<and> build < 73)"

text \<open>The two branches of line 69: lines 71 to 79, and lines 83 to 120.\<close>

definition legacy_color_branch :: "zdefs \<Rightarrow> bool \<Rightarrow> 'a env \<Rightarrow> 'a env" where
  "legacy_color_branch c keepdata e =
     (if keepdata then e\<lparr>colordata := relocate_old c (colordata e)\<rparr> else e)"

definition extended_color_branch ::
  "zdefs \<Rightarrow> word16 \<Rightarrow> bool \<Rightarrow> 'a env \<Rightarrow> 'a outcome + 'a env" where
  "extended_color_branch c s_version keepdata e =
     (case read_colors keepdata (oldpdTOTAL c) (newpdTOTAL c - oldpdTOTAL c) 0 e of
        Inl r \<Rightarrow> Inl r
      | Inr e1 \<Rightarrow>
          if s_version < 4 then
            Inr (if keepdata then e1\<lparr>colordata := relocate_new c (colordata e1)\<rparr> else e1)
          else
            read_colors keepdata (newpdTOTAL c) (newerpdTOTAL c - newpdTOTAL c) 0 e1)"

definition read_color_tables ::
  "zdefs \<Rightarrow> word16 \<Rightarrow> word16 \<Rightarrow> word16 \<Rightarrow> bool \<Rightarrow> 'a env \<Rightarrow> 'a outcome + 'a env" where
  "read_color_tables c version build s_version keepdata e =
     (case read_colors keepdata 0 (oldpdTOTAL c) 0 e of
        Inl r \<Rightarrow> Inl r
      | Inr e1 \<Rightarrow>
          if legacy_colors version build then Inr (legacy_color_branch c keepdata e1)
          else extended_color_branch c s_version keepdata e1)"

subsection \<open>Palette names (lines 123 to 161)\<close>

function read_names :: "zdefs \<Rightarrow> bool \<Rightarrow> nat \<Rightarrow> nat \<Rightarrow> 'a env \<Rightarrow> 'a outcome + 'a env" where
  "read_names c keepdata palnamestoread i e =
     (if i < palnamestoread then
        (case pfread (PALNAMESIZE c) e of
           (None, e') \<Rightarrow> Inl (Return qe_invalid e')
         | (Some temp_palname, e') \<Rightarrow>
             read_names c keepdata palnamestoread (Suc i)
               (if keepdata
                then e'\<lparr>palnames := memcpy_row (palnames e') i temp_palname (PALNAMESIZE c)\<rparr>
                else e'))
      else Inr e)"
  by pat_completeness auto
termination
  by (relation "measure (\<lambda>(c, keepdata, palnamestoread, i, e). palnamestoread - i)") auto

text \<open>Lines 156 to 159: \<^verbatim>\<open>for(int i=palnamestoread; i<MAXLEVELS; i++)\<close>.\<close>

definition clear_names :: "zdefs \<Rightarrow> nat \<Rightarrow> name_table \<Rightarrow> name_table" where
  "clear_names c palnamestoread t =
     fold (\<lambda>i t. memset_row t i 0 (PALNAMESIZE c)) [palnamestoread..<MAXLEVELS c] t"

definition legacy_names :: "word16 \<Rightarrow> word16 \<Rightarrow> bool" where
  "legacy_names version build \<longleftrightarrow> version < 0x192 \<or> (version = 0x192 \<and> build < 76)"

text \<open>The two branches of line 123: lines 125 to 128, and lines 132 to 160.\<close>

definition reset_names_branch :: "zdefs \<Rightarrow> bool \<Rightarrow> 'a env \<Rightarrow> 'a env" where
  "reset_names_branch c keepdata e =
     (if keepdata
      then (logged Init_palnames e)\<lparr>palnames := init_palnames c (palnames e)\<rparr>
      else e)"

definition read_names_branch ::
  "zdefs \<Rightarrow> word16 \<Rightarrow> bool \<Rightarrow> 'a env \<Rightarrow> 'a outcome + 'a env" where
  "read_names_branch c s_version keepdata e =
     (let palnamestoread = (if s_version < 3 then OLDMAXLEVELS c else 512) in
      case read_names c keepdata palnamestoread 0 e of
        Inl r \<Rightarrow> Inl r
      | Inr e1 \<Rightarrow>
          Inr (if keepdata
               then e1\<lparr>palnames := clear_names c palnamestoread (palnames e1)\<rparr>
               else e1))"

definition read_palnames ::
  "zdefs \<Rightarrow> word16 \<Rightarrow> word16 \<Rightarrow> word16 \<Rightarrow> bool \<Rightarrow> 'a env \<Rightarrow> 'a outcome + 'a env" where
  "read_palnames c version build s_version keepdata e =
     (if legacy_names version build then Inr (reset_names_branch c keepdata e)
      else read_names_branch c s_version keepdata e)"

subsection \<open>Colour cycles (lines 163 to 211)\<close>

text \<open>Lines 165 to 173, on the working copy \<^verbatim>\<open>temp_misc\<close>.\<close>

definition zero_cycles :: "(nat \<Rightarrow> nat \<Rightarrow> palcycle) \<Rightarrow> nat \<Rightarrow> nat \<Rightarrow> palcycle" where
  "zero_cycles t =
     fold (\<lambda>i t. fold (\<lambda>j t. t(i := (t i)(j := (t i j)\<lparr>first := 0, count := 0, speed := 0\<rparr>)))
                   [0..<3] t)
          [0..<256] t"

text \<open>
  One inner loop \<^verbatim>\<open>for(int j=0; j<3; j++)\<close> of lines 182 to 204; \<open>put\<close> stores the byte
  into the field the loop is for. The byte is read first and stored next; the store to
  \<^verbatim>\<open>temp_misc.cycles[i][j]\<close> with \<open>i\<close> beyond the table is the fault.
\<close>

function read_slots ::
  "(byte \<Rightarrow> palcycle \<Rightarrow> palcycle) \<Rightarrow> nat \<Rightarrow> nat \<Rightarrow> 'a miscQdata \<Rightarrow> 'a env
     \<Rightarrow> 'a outcome + ('a miscQdata \<times> 'a env)" where
  "read_slots put i j temp_misc e =
     (if j < 3 then
        (case p_getc e of
           (None, e') \<Rightarrow> Inl (Return qe_invalid e')
         | (Some v, e') \<Rightarrow>
             if 256 \<le> i then Inl (Fault i e')
             else read_slots put i (Suc j)
                    (temp_misc\<lparr>cycles := (cycles temp_misc)
                        (i := (cycles temp_misc i)(j := put v (cycles temp_misc i j)))\<rparr>) e')
      else Inr (temp_misc, e))"
  by pat_completeness auto
termination
  by (relation "measure (\<lambda>(put, i, j, temp_misc, e). 3 - j)") auto

function read_cycles ::
  "nat \<Rightarrow> nat \<Rightarrow> 'a miscQdata \<Rightarrow> 'a env \<Rightarrow> 'a outcome + ('a miscQdata \<times> 'a env)" where
  "read_cycles palcycles i temp_misc e =
     (if i < palcycles then
        (case read_slots (\<lambda>v p. p\<lparr>first := v\<rparr>) i 0 temp_misc e of
           Inl r \<Rightarrow> Inl r
         | Inr (tm1, e1) \<Rightarrow>
        (case read_slots (\<lambda>v p. p\<lparr>count := v\<rparr>) i 0 tm1 e1 of
           Inl r \<Rightarrow> Inl r
         | Inr (tm2, e2) \<Rightarrow>
        (case read_slots (\<lambda>v p. p\<lparr>speed := v\<rparr>) i 0 tm2 e2 of
           Inl r \<Rightarrow> Inl r
         | Inr (tm3, e3) \<Rightarrow> read_cycles palcycles (Suc i) tm3 e3)))
      else Inr (temp_misc, e))"
  by pat_completeness auto
termination
  by (relation "measure (\<lambda>(palcycles, i, temp_misc, e). palcycles - i)") auto

definition read_palcycles ::
  "word16 \<Rightarrow> bool \<Rightarrow> 'a miscQdata \<Rightarrow> 'a env \<Rightarrow> 'a outcome + 'a env" where
  "read_palcycles version keepdata temp_misc e =
     (if version > 0x192 then
        (let tm0 = temp_misc\<lparr>cycles := zero_cycles (cycles temp_misc)\<rparr> in
         case p_igetw e of
           (None, e1) \<Rightarrow> Inl (Return qe_invalid e1)
         | (Some palcycles, e1) \<Rightarrow>
             (case read_cycles (unat palcycles) 0 tm0 e1 of
                Inl r \<Rightarrow> Inl r
              | Inr (tm, e2) \<Rightarrow> Inr (if keepdata then e2\<lparr>Misc := tm\<rparr> else e2)))
      else Inr e)"

subsection \<open>The routine\<close>

text \<open>
  \<open>e\<close> holds the stream \<^verbatim>\<open>f\<close>, the aggregate \<^verbatim>\<open>*Misc\<close> and the global tables; the two
  unnamed parameters of the source are not used by it.
\<close>

definition readcolordata ::
  "zdefs \<Rightarrow> 'a env \<Rightarrow> word16 \<Rightarrow> word16 \<Rightarrow> bool \<Rightarrow> 'a outcome" where
  "readcolordata c e version build keepdata =
     (let temp_misc = Misc e in
      case read_section_header version e of
        Inl r \<Rightarrow> r
      | Inr (s_version, e1) \<Rightarrow>
      (case read_color_tables c version build s_version keepdata e1 of
        Inl r \<Rightarrow> r
      | Inr e2 \<Rightarrow>
      (case read_palnames c version build s_version keepdata e2 of
        Inl r \<Rightarrow> r
      | Inr e3 \<Rightarrow>
      (case read_palcycles version keepdata temp_misc e3 of
        Inl r \<Rightarrow> r
      | Inr e4 \<Rightarrow> Return qe_OK e4))))"

section \<open>Auxiliary notions\<close>

subsection \<open>What a step leaves alone\<close>

text \<open>
  \<open>frame kc kn e e'\<close>: between \<open>e\<close> and \<open>e'\<close> the aggregate \<^verbatim>\<open>*Misc\<close> is the same, the
  colour records are the same unless \<open>kc\<close>, the palette names are the same unless \<open>kn\<close>.
  \<open>appends S e e'\<close>: the calls of \<open>e'\<close> are those of \<open>e\<close> followed by calls in \<open>S\<close>.
\<close>

definition frame :: "bool \<Rightarrow> bool \<Rightarrow> 'a env \<Rightarrow> 'a env \<Rightarrow> bool" where
  "frame kc kn e e' \<longleftrightarrow>
     Misc e' = Misc e \<and> (\<not> kc \<longrightarrow> colordata e' = colordata e) \<and>
     (\<not> kn \<longrightarrow> palnames e' = palnames e)"

definition appends :: "call set \<Rightarrow> 'a env \<Rightarrow> 'a env \<Rightarrow> bool" where
  "appends S e e' \<longleftrightarrow> (\<exists>xs. calls e' = calls e @ xs \<and> set xs \<subseteq> S)"

definition step_inv :: "bool \<Rightarrow> bool \<Rightarrow> call set \<Rightarrow> 'a env \<Rightarrow> 'a env \<Rightarrow> bool" where
  "step_inv kc kn S e e' \<longleftrightarrow> frame kc kn e e' \<and> appends S e e'"

definition header_calls :: "call list" where
  "header_calls = [P_igetw, P_igetw, P_igetl]"

subsection \<open>What the loops compute\<close>

text \<open>
  The state after \<open>n\<close> colour records have been read from the stream into the slots from
  \<open>slot\<close> on, after \<open>n\<close> names have been read into the rows from \<open>slot\<close> on, and the
  working copy and state after \<open>n\<close> cycle indices have been read from \<open>slot\<close> on: nine
  bytes for an index, three \<^verbatim>\<open>first\<close>, three \<^verbatim>\<open>count\<close>, three \<^verbatim>\<open>speed\<close>.
\<close>

definition colors_read :: "bool \<Rightarrow> nat \<Rightarrow> nat \<Rightarrow> 'a env \<Rightarrow> 'a env" where
  "colors_read keepdata slot n e =
     e\<lparr>packfile := drop (48 * n) (packfile e),
       colordata := (if keepdata then memcpy_buf (colordata e) (slot * 48) (packfile e) (48 * n)
                     else colordata e),
       calls := calls e @ replicate n (Pfread 48)\<rparr>"

definition load_names :: "name_table \<Rightarrow> nat \<Rightarrow> nat \<Rightarrow> byte list \<Rightarrow> nat \<Rightarrow> name_table" where
  "load_names t w slot buf n =
     (\<lambda>i j. if slot \<le> i \<and> i < slot + n \<and> j < w then buf ! ((i - slot) * w + j) else t i j)"

definition names_read :: "zdefs \<Rightarrow> bool \<Rightarrow> nat \<Rightarrow> nat \<Rightarrow> 'a env \<Rightarrow> 'a env" where
  "names_read c keepdata slot n e =
     e\<lparr>packfile := drop (PALNAMESIZE c * n) (packfile e),
       palnames := (if keepdata then load_names (palnames e) (PALNAMESIZE c) slot (packfile e) n
                    else palnames e),
       calls := calls e @ replicate n (Pfread (PALNAMESIZE c))\<rparr>"

definition no_cycle :: palcycle where
  "no_cycle = \<lparr>first = 0, count = 0, speed = 0\<rparr>"

definition load_cycles ::
  "(nat \<Rightarrow> nat \<Rightarrow> palcycle) \<Rightarrow> nat \<Rightarrow> byte list \<Rightarrow> nat \<Rightarrow> nat \<Rightarrow> nat \<Rightarrow> palcycle" where
  "load_cycles t slot buf n =
     (\<lambda>i j. if slot \<le> i \<and> i < slot + n \<and> j < 3
            then (t i j)\<lparr>first := buf ! (9 * (i - slot) + j),
                          count := buf ! (9 * (i - slot) + 3 + j),
                          speed := buf ! (9 * (i - slot) + 6 + j)\<rparr>
            else t i j)"

definition cycles_read :: "nat \<Rightarrow> nat \<Rightarrow> 'a miscQdata \<Rightarrow> 'a env \<Rightarrow> 'a miscQdata \<times> 'a env" where
  "cycles_read slot n tm e =
     (tm\<lparr>cycles := load_cycles (cycles tm) slot (packfile e) n\<rparr>,
      e\<lparr>packfile := drop (9 * n) (packfile e), calls := calls e @ replicate (9 * n) P_getc\<rparr>)"

subsection \<open>What the steps compute\<close>

text \<open>
  The sub-version the header gives, the bytes each step takes from the stream when every
  read succeeds, and the state each step leaves then: \<open>header_done\<close>, \<open>colors_done\<close>,
  \<open>names_done\<close> and their composition \<open>before_cycles\<close>, then \<open>cycles_done\<close>.
  \<open>section_offset\<close> is the number of bytes before the cycle count: the header if any, the
  colour records and the names. \<open>cycles_count p\<close> is the 16-bit count at the head of \<open>p\<close>.
\<close>

definition section_version :: "word16 \<Rightarrow> byte list \<Rightarrow> word16" where
  "section_version version p = (if version > 0x192 then word_cat (p ! 1) (p ! 0) else 0)"

definition header_size :: "word16 \<Rightarrow> nat" where
  "header_size version = (if version > 0x192 then 8 else 0)"

definition header_done :: "word16 \<Rightarrow> 'a env \<Rightarrow> 'a env" where
  "header_done version e =
     (if version > 0x192
      then e\<lparr>packfile := drop 8 (packfile e), calls := calls e @ [P_igetw, P_igetw, P_igetl]\<rparr>
      else e)"

definition color_records :: "zdefs \<Rightarrow> word16 \<Rightarrow> word16 \<Rightarrow> word16 \<Rightarrow> nat" where
  "color_records c version build s_version =
     (if legacy_colors version build then oldpdTOTAL c
      else if s_version < 4 then oldpdTOTAL c + (newpdTOTAL c - oldpdTOTAL c)
      else oldpdTOTAL c + (newpdTOTAL c - oldpdTOTAL c) + (newerpdTOTAL c - newpdTOTAL c))"

definition colors_done ::
  "zdefs \<Rightarrow> word16 \<Rightarrow> word16 \<Rightarrow> word16 \<Rightarrow> bool \<Rightarrow> 'a env \<Rightarrow> 'a env" where
  "colors_done c version build s_version keepdata e =
     (let e1 = colors_read keepdata 0 (oldpdTOTAL c) e in
      if legacy_colors version build then legacy_color_branch c keepdata e1
      else
        let e2 = colors_read keepdata (oldpdTOTAL c) (newpdTOTAL c - oldpdTOTAL c) e1 in
        if s_version < 4
        then (if keepdata then e2\<lparr>colordata := relocate_new c (colordata e2)\<rparr> else e2)
        else colors_read keepdata (newpdTOTAL c) (newerpdTOTAL c - newpdTOTAL c) e2)"

definition names_count :: "zdefs \<Rightarrow> word16 \<Rightarrow> nat" where
  "names_count c s_version = (if s_version < 3 then OLDMAXLEVELS c else 512)"

definition names_done ::
  "zdefs \<Rightarrow> word16 \<Rightarrow> word16 \<Rightarrow> word16 \<Rightarrow> bool \<Rightarrow> 'a env \<Rightarrow> 'a env" where
  "names_done c version build s_version keepdata e =
     (if legacy_names version build then reset_names_branch c keepdata e
      else
        let e1 = names_read c keepdata 0 (names_count c s_version) e in
        if keepdata
        then e1\<lparr>palnames := clear_names c (names_count c s_version) (palnames e1)\<rparr>
        else e1)"

definition names_size :: "zdefs \<Rightarrow> word16 \<Rightarrow> word16 \<Rightarrow> word16 \<Rightarrow> nat" where
  "names_size c version build s_version =
     (if legacy_names version build then 0 else PALNAMESIZE c * names_count c s_version)"

definition cycles_count :: "byte list \<Rightarrow> nat" where
  "cycles_count p = unat (word_cat (p ! 1) (p ! 0) :: word16)"

definition cycles_done :: "word16 \<Rightarrow> bool \<Rightarrow> 'a miscQdata \<Rightarrow> 'a env \<Rightarrow> 'a env" where
  "cycles_done version keepdata temp_misc e =
     (if version > 0x192 then
        let n = cycles_count (packfile e);
            e2 = e\<lparr>packfile := drop (2 + 9 * n) (packfile e),
                   calls := calls e @ P_igetw # replicate (9 * n) P_getc\<rparr>
        in if keepdata
           then e2\<lparr>Misc := temp_misc\<lparr>cycles :=
                  load_cycles (zero_cycles (cycles temp_misc)) 0 (drop 2 (packfile e)) n\<rparr>\<rparr>
           else e2
      else e)"

definition before_cycles :: "zdefs \<Rightarrow> word16 \<Rightarrow> word16 \<Rightarrow> bool \<Rightarrow> 'a env \<Rightarrow> 'a env" where
  "before_cycles c version build keepdata e =
     (let s_version = section_version version (packfile e)
      in names_done c version build s_version keepdata
           (colors_done c version build s_version keepdata (header_done version e)))"

definition section_offset :: "zdefs \<Rightarrow> word16 \<Rightarrow> word16 \<Rightarrow> byte list \<Rightarrow> nat" where
  "section_offset c version build p =
     (let s_version = section_version version p
      in header_size version + 48 * color_records c version build s_version +
         names_size c version build s_version)"

subsection \<open>The legacy migration, byte by byte\<close>

text \<open>
  The colour table after the migration of lines 73 to 78, stated for each byte \<open>x\<close>: the
  gap from the old sprite offset \<^verbatim>\<open>oldpoSPRITE\<close> to the newer one \<^verbatim>\<open>newerpoSPRITE\<close> is
  zero; slot 8 of the block at the newer offset is zero; slots 9 to 11 hold records 8 to 10
  of the old block; the other slots of the 30 hold the records of the old block of the same
  number; every other byte is as it was.
\<close>

definition migrated :: "zdefs \<Rightarrow> (nat \<Rightarrow> byte) \<Rightarrow> nat \<Rightarrow> byte" where
  "migrated c m =
     (\<lambda>x. let old = oldpoSPRITE c * 48; new = newerpoSPRITE c * 48 in
        if old \<le> x \<and> x < new then 0
        else if new + 8 * 48 \<le> x \<and> x < new + 9 * 48 then 0
        else if new + 9 * 48 \<le> x \<and> x < new + 12 * 48 then m (old + (x - new) - 48)
        else if new \<le> x \<and> x < new + 30 * 16 * 3 then m (old + (x - new))
        else m x)"

subsection \<open>Concrete inputs\<close>

text \<open>
  Modelled from the spec: the values of the format constants and the body of
  \<^verbatim>\<open>init_palnames\<close> are not in \<^verbatim>\<open>zplload.c\<close>, and section 6 of the specification names the
  constants without their values. To evaluate the routine at concrete inputs they are fixed
  here to the values of the format the file reads: 15 main colour sets, 13 for each level and
  30 for the sprites, for 15, 256 and 512 levels (240, 3373 and 6701 records, the sprites at
  210, 3343 and 6671), and names of 17 bytes. \<^verbatim>\<open>init_palnames\<close> is taken, after step 4 of
  section 4.1, to leave every name empty. No general theorem depends on these values.
\<close>

definition zc_defs :: zdefs where
  "zc_defs = \<lparr>oldpdTOTAL = 240, newpdTOTAL = 3373, newerpdTOTAL = 6701,
     oldpoSPRITE = 210, newpoSPRITE = 3343, newerpoSPRITE = 6671,
     PALNAMESIZE = 17, OLDMAXLEVELS = 256, MAXLEVELS = 512,
     init_palnames = (\<lambda>t i j. if i < 512 \<and> j < 17 then 0 else t i j)\<rparr>"

text \<open>
  A caller whose tables hold the byte 9 everywhere, with a stream \<open>p\<close>; and a whole
  section for a version above \<^verbatim>\<open>0x192\<close>: a header of sub-version 0, 3373 colour records of
  zeros, 256 names of ones, and one colour cycle.
\<close>

definition sample_env :: "byte list \<Rightarrow> nat env" where
  "sample_env p =
     \<lparr>packfile = p, colordata = (\<lambda>_. 9), palnames = (\<lambda>_ _. 9),
      Misc = \<lparr>cycles = (\<lambda>_ _. \<lparr>first = 9, count = 9, speed = 9\<rparr>), others = 9\<rparr>,
      calls = []\<rparr>"

definition sample_section :: "byte list" where
  "sample_section =
     replicate 161912 0 @ replicate 4352 1 @ [1, 0, 10, 11, 12, 20, 21, 22, 30, 31, 32]"

declare read_colors.simps [simp del] read_names.simps [simp del]
  read_slots.simps [simp del] read_cycles.simps [simp del]

section \<open>Properties of the steps\<close>

lemma step_inv_refl [simp]: "step_inv kc kn S e e"
  by (simp add: step_inv_def frame_def appends_def)

lemma step_inv_trans: "step_inv kc kn S e e1 \<Longrightarrow> step_inv kc kn T e1 e2 \<Longrightarrow> step_inv kc kn (S \<union> T) e e2"
  by (auto simp: step_inv_def frame_def appends_def)

lemma step_inv_mono: "step_inv kc kn S e e1 \<Longrightarrow> S \<subseteq> T \<Longrightarrow> step_inv kc kn T e e1"
  by (auto simp: step_inv_def frame_def appends_def)

lemma step_inv_trans_same: "step_inv kc kn S e e1 \<Longrightarrow> step_inv kc kn S e1 e2 \<Longrightarrow> step_inv kc kn S e e2"
  using step_inv_trans [of kc kn S e e1 S e2] by simp

lemma logged_simps [simp]:
  "packfile (logged c e) = packfile e" "colordata (logged c e) = colordata e"
  "palnames (logged c e) = palnames e" "Misc (logged c e) = Misc e"
  "calls (logged c e) = calls e @ [c]"
  by (simp_all add: logged_def)

lemma pfread_None: "pfread n e = (None, e') \<Longrightarrow> e' = logged (Pfread n) e \<and> length (packfile e) < n"
  by (auto simp: pfread_def split: if_splits)

lemma pfread_Some: "pfread n e = (Some buf, e') \<Longrightarrow>
  e' = (logged (Pfread n) e)\<lparr>packfile := drop n (packfile e)\<rparr> \<and> buf = take n (packfile e) \<and> n \<le> length (packfile e)"
  by (auto simp: pfread_def split: if_splits)

lemma pfread_inv: "pfread n e = (v, e') \<Longrightarrow> step_inv kc kn {Pfread n} e e'"
  by (auto simp: pfread_def step_inv_def frame_def appends_def split: if_splits)

lemma p_getc_inv: "p_getc e = (v, e') \<Longrightarrow> step_inv kc kn {P_getc} e e'"
  by (auto simp: p_getc_def step_inv_def frame_def appends_def split: if_splits)

lemma p_igetw_inv: "p_igetw e = (v, e') \<Longrightarrow> step_inv kc kn {P_igetw} e e'"
  by (auto simp: p_igetw_def step_inv_def frame_def appends_def split: if_splits)

lemma p_igetl_inv: "p_igetl e = (v, e') \<Longrightarrow> step_inv kc kn {P_igetl} e e'"
  by (auto simp: p_igetl_def step_inv_def frame_def appends_def split: if_splits)

lemma step_inv_colordata: "step_inv True kn S e e' \<Longrightarrow> step_inv True kn S e (e'\<lparr>colordata := m\<rparr>)"
  by (simp add: step_inv_def frame_def appends_def)

lemma step_inv_palnames: "step_inv kc True S e e' \<Longrightarrow> step_inv kc True S e (e'\<lparr>palnames := m\<rparr>)"
  by (simp add: step_inv_def frame_def appends_def)

lemma read_colors_Inl:
  "read_colors k b n i e = Inl r \<Longrightarrow> returns qe_invalid r \<and> step_inv k False {Pfread 48} e (final r)"
proof (induction k b n i e rule: read_colors.induct)
  case (1 k b n i e)
  note [simp] = read_colors.simps [of k b n i e]
  from "1.prems" have lt: "i < n" by (simp split: if_splits)
  obtain v e' where rd: "pfread 48 e = (v, e')" by (cases "pfread 48 e")
  note inv = pfread_inv [OF rd, of k False]
  show ?case
  proof (cases v)
    case None
    with "1.prems" lt rd inv show ?thesis by (auto simp: returns_def)
  next
    case (Some buf)
    let ?e = "if k then e'\<lparr>colordata := memcpy_buf (colordata e') ((b + i) * 48) buf 48\<rparr> else e'"
    have a: "step_inv k False {Pfread 48} e ?e"
      using inv by (cases k) (simp_all add: step_inv_colordata)
    from "1.prems" lt rd Some have "read_colors k b n (Suc i) ?e = Inl r" by simp
    from "1.IH" [OF lt rd [symmetric] Some this]
    show ?thesis using a by (auto intro: step_inv_trans_same)
  qed
qed

lemma read_colors_Inr:
  "read_colors k b n i e = Inr e2 \<Longrightarrow> step_inv k False {Pfread 48} e e2"
proof (induction k b n i e rule: read_colors.induct)
  case (1 k b n i e)
  note [simp] = read_colors.simps [of k b n i e]
  show ?case
  proof (cases "i < n")
    case False
    with "1.prems" show ?thesis by simp
  next
    case lt: True
    obtain v e' where rd: "pfread 48 e = (v, e')" by (cases "pfread 48 e")
    note inv = pfread_inv [OF rd, of k False]
    show ?thesis
    proof (cases v)
      case None
      with "1.prems" lt rd show ?thesis by simp
    next
      case (Some buf)
      let ?e = "if k then e'\<lparr>colordata := memcpy_buf (colordata e') ((b + i) * 48) buf 48\<rparr> else e'"
      have a: "step_inv k False {Pfread 48} e ?e"
        using inv by (cases k) (simp_all add: step_inv_colordata)
      from "1.prems" lt rd Some have "read_colors k b n (Suc i) ?e = Inr e2" by simp
      from "1.IH" [OF lt rd [symmetric] Some this]
      show ?thesis using a by (auto intro: step_inv_trans_same)
    qed
  qed
qed

lemma step_inv_weaken: "step_inv False False S e e' \<Longrightarrow> step_inv kc kn S e e'"
  by (simp add: step_inv_def frame_def)

lemma read_names_Inl:
  "read_names c k n i e = Inl r \<Longrightarrow> returns qe_invalid r \<and> step_inv False k {Pfread (PALNAMESIZE c)} e (final r)"
proof (induction c k n i e rule: read_names.induct)
  case (1 c k n i e)
  note [simp] = read_names.simps [of c k n i e]
  from "1.prems" have lt: "i < n" by (simp add: read_names.simps [of c k n i e] split: if_splits)
  obtain v e' where rd: "pfread (PALNAMESIZE c) e = (v, e')" by (cases "pfread (PALNAMESIZE c) e")
  note inv = pfread_inv [OF rd, of False k]
  show ?case
  proof (cases v)
    case None
    with "1.prems" lt rd inv show ?thesis by (auto simp: returns_def)
  next
    case (Some buf)
    let ?e = "if k then e'\<lparr>palnames := memcpy_row (palnames e') i buf (PALNAMESIZE c)\<rparr> else e'"
    have a: "step_inv False k {Pfread (PALNAMESIZE c)} e ?e"
      using inv by (cases k) (simp_all add: step_inv_palnames)
    from "1.prems" lt rd Some have "read_names c k n (Suc i) ?e = Inl r" by simp
    from "1.IH" [OF lt rd [symmetric] Some this]
    show ?thesis using a by (auto intro: step_inv_trans_same)
  qed
qed

lemma read_names_Inr:
  "read_names c k n i e = Inr e2 \<Longrightarrow> step_inv False k {Pfread (PALNAMESIZE c)} e e2"
proof (induction c k n i e rule: read_names.induct)
  case (1 c k n i e)
  note [simp] = read_names.simps [of c k n i e]
  show ?case
  proof (cases "i < n")
    case False
    with "1.prems" show ?thesis by simp
  next
    case lt: True
    obtain v e' where rd: "pfread (PALNAMESIZE c) e = (v, e')" by (cases "pfread (PALNAMESIZE c) e")
    note inv = pfread_inv [OF rd, of False k]
    show ?thesis
    proof (cases v)
      case None
      with "1.prems" lt rd show ?thesis by simp
    next
      case (Some buf)
      let ?e = "if k then e'\<lparr>palnames := memcpy_row (palnames e') i buf (PALNAMESIZE c)\<rparr> else e'"
      have a: "step_inv False k {Pfread (PALNAMESIZE c)} e ?e"
        using inv by (cases k) (simp_all add: step_inv_palnames)
      from "1.prems" lt rd Some have "read_names c k n (Suc i) ?e = Inr e2" by simp
      from "1.IH" [OF lt rd [symmetric] Some this]
      show ?thesis using a by (auto intro: step_inv_trans_same)
    qed
  qed
qed

lemma read_slots_Inl:
  "read_slots put i j tm e = Inl r \<Longrightarrow> \<not> returns qe_OK r \<and> step_inv False False {P_getc} e (final r)"
proof (induction put i j tm e rule: read_slots.induct)
  case (1 put i j tm e)
  note [simp] = read_slots.simps [of put i j tm e]
  from "1.prems" have lt: "j < 3" by (simp split: if_splits)
  obtain v e' where rd: "p_getc e = (v, e')" by (cases "p_getc e")
  note inv = p_getc_inv [OF rd, of False False]
  show ?case
  proof (cases v)
    case None
    with "1.prems" lt rd inv show ?thesis by (auto simp: returns_def)
  next
    case (Some x)
    show ?thesis
    proof (cases "256 \<le> i")
      case True
      with "1.prems" lt rd inv Some show ?thesis by (auto simp: returns_def)
    next
      case False
      let ?tm = "tm\<lparr>cycles := (cycles tm)(i := (cycles tm i)(j := put x (cycles tm i j)))\<rparr>"
      from "1.prems" lt rd Some False have "read_slots put i (Suc j) ?tm e' = Inl r" by simp
      from "1.IH" [OF lt rd [symmetric] Some False this]
      show ?thesis using inv by (auto intro: step_inv_trans_same)
    qed
  qed
qed

lemma read_slots_Inr:
  "read_slots put i j tm e = Inr (tm2, e2) \<Longrightarrow>
     step_inv False False {P_getc} e e2 \<and> others tm2 = others tm \<and> (j < 3 \<longrightarrow> i < 256)"
proof (induction put i j tm e rule: read_slots.induct)
  case (1 put i j tm e)
  note [simp] = read_slots.simps [of put i j tm e]
  show ?case
  proof (cases "j < 3")
    case False
    with "1.prems" show ?thesis by simp
  next
    case lt: True
    obtain v e' where rd: "p_getc e = (v, e')" by (cases "p_getc e")
    note inv = p_getc_inv [OF rd, of False False]
    show ?thesis
    proof (cases v)
      case None
      with "1.prems" lt rd show ?thesis by simp
    next
      case (Some x)
      show ?thesis
      proof (cases "256 \<le> i")
        case True
        with "1.prems" lt rd Some show ?thesis by simp
      next
        case False
        let ?tm = "tm\<lparr>cycles := (cycles tm)(i := (cycles tm i)(j := put x (cycles tm i j)))\<rparr>"
        from "1.prems" lt rd Some False have "read_slots put i (Suc j) ?tm e' = Inr (tm2, e2)" by simp
        from "1.IH" [OF lt rd [symmetric] Some False this]
        show ?thesis using inv False by (auto intro: step_inv_trans_same)
      qed
    qed
  qed
qed

lemma read_cycles_Inl:
  "read_cycles n i tm e = Inl r \<Longrightarrow> \<not> returns qe_OK r \<and> step_inv False False {P_getc} e (final r)"
proof (induction n i tm e rule: read_cycles.induct)
  case (1 n i tm e)
  note [simp] = read_cycles.simps [of n i tm e]
  from "1.prems" have lt: "i < n" by (simp split: if_splits)
  show ?case
  proof (cases "read_slots (\<lambda>v p. p\<lparr>first := v\<rparr>) i 0 tm e")
    case (Inl r1)
    with "1.prems" lt read_slots_Inl [OF Inl] show ?thesis by simp
  next
    case (Inr p1)
    obtain tm1 e1 where p1: "p1 = (tm1, e1)" by (cases p1)
    note s1 = read_slots_Inr [OF Inr [unfolded p1]]
    show ?thesis
    proof (cases "read_slots (\<lambda>v p. p\<lparr>count := v\<rparr>) i 0 tm1 e1")
      case (Inl r2)
      with "1.prems" lt Inr p1 read_slots_Inl [OF Inl] s1 show ?thesis
        by (auto intro: step_inv_trans_same)
    next
      case Inr2: (Inr p2)
      obtain tm2 e2 where p2: "p2 = (tm2, e2)" by (cases p2)
      note s2 = read_slots_Inr [OF Inr2 [unfolded p2]]
      show ?thesis
      proof (cases "read_slots (\<lambda>v p. p\<lparr>speed := v\<rparr>) i 0 tm2 e2")
        case (Inl r3)
        with "1.prems" lt Inr p1 Inr2 p2 read_slots_Inl [OF Inl] s1 s2 show ?thesis
          by (auto intro: step_inv_trans_same)
      next
        case Inr3: (Inr p3)
        obtain tm3 e3 where p3: "p3 = (tm3, e3)" by (cases p3)
        note s3 = read_slots_Inr [OF Inr3 [unfolded p3]]
        from "1.prems" lt Inr p1 Inr2 p2 Inr3 p3
        have "read_cycles n (Suc i) tm3 e3 = Inl r" by simp
        from "1.IH" [OF lt Inr p1 [symmetric] Inr2 p2 [symmetric] Inr3 p3 [symmetric] this]
        show ?thesis using s1 s2 s3 by (auto intro: step_inv_trans_same)
      qed
    qed
  qed
qed

lemma read_cycles_Inr:
  "read_cycles n i tm e = Inr (tm', e') \<Longrightarrow>
     step_inv False False {P_getc} e e' \<and> others tm' = others tm \<and> (i < n \<longrightarrow> n \<le> 256)"
proof (induction n i tm e rule: read_cycles.induct)
  case (1 n i tm e)
  note [simp] = read_cycles.simps [of n i tm e]
  show ?case
  proof (cases "i < n")
    case False
    with "1.prems" show ?thesis by simp
  next
    case lt: True
    show ?thesis
    proof (cases "read_slots (\<lambda>v p. p\<lparr>first := v\<rparr>) i 0 tm e")
      case (Inl r1)
      with "1.prems" lt show ?thesis by simp
    next
      case (Inr p1)
      obtain tm1 e1 where p1: "p1 = (tm1, e1)" by (cases p1)
      note s1 = read_slots_Inr [OF Inr [unfolded p1]]
      show ?thesis
      proof (cases "read_slots (\<lambda>v p. p\<lparr>count := v\<rparr>) i 0 tm1 e1")
        case (Inl r2)
        with "1.prems" lt Inr p1 show ?thesis by simp
      next
        case Inr2: (Inr p2)
        obtain tm2 e2 where p2: "p2 = (tm2, e2)" by (cases p2)
        note s2 = read_slots_Inr [OF Inr2 [unfolded p2]]
        show ?thesis
        proof (cases "read_slots (\<lambda>v p. p\<lparr>speed := v\<rparr>) i 0 tm2 e2")
          case (Inl r3)
          with "1.prems" lt Inr p1 Inr2 p2 show ?thesis by simp
        next
          case Inr3: (Inr p3)
          obtain tm3 e3 where p3: "p3 = (tm3, e3)" by (cases p3)
          note s3 = read_slots_Inr [OF Inr3 [unfolded p3]]
          from "1.prems" lt Inr p1 Inr2 p2 Inr3 p3
          have "read_cycles n (Suc i) tm3 e3 = Inr (tm', e')" by simp
          from "1.IH" [OF lt Inr p1 [symmetric] Inr2 p2 [symmetric] Inr3 p3 [symmetric] this]
          have "step_inv False False {P_getc} e e'" "others tm' = others tm" "Suc i < n \<longrightarrow> n \<le> 256"
            using s1 s2 s3 by (auto intro: step_inv_trans_same)
          moreover have "i < 256" using s1 by simp
          ultimately show ?thesis by auto
        qed
      qed
    qed
  qed
qed

lemma header_Inl:
  "read_section_header v e = Inl r \<Longrightarrow>
     v > 0x192 \<and> length (packfile e) < 8 \<and> returns qe_invalid r \<and>
     colordata (final r) = colordata e \<and> palnames (final r) = palnames e \<and> Misc (final r) = Misc e \<and>
     (\<exists>m \<in> {1, 2, 3}. calls (final r) = calls e @ take m header_calls)"
  by (auto simp: read_section_header_def p_igetw_def p_igetl_def returns_def header_calls_def
           split: if_splits)

lemma header_Inr:
  "read_section_header v e = Inr (sv, e1) \<Longrightarrow>
     (if v > 0x192
      then 8 \<le> length (packfile e) \<and> sv = word_cat (packfile e ! 1) (packfile e ! 0) \<and>
           e1 = e\<lparr>packfile := drop 8 (packfile e), calls := calls e @ header_calls\<rparr>
      else sv = 0 \<and> e1 = e)"
  by (auto simp: read_section_header_def p_igetw_def p_igetl_def header_calls_def logged_def
           split: if_splits)

lemma header_Inr_inv:
  "read_section_header v e = Inr (sv, e1) \<Longrightarrow> step_inv False False (if v > 0x192 then {P_igetw, P_igetl} else {}) e e1"
  by (drule header_Inr) (auto simp: step_inv_def frame_def appends_def header_calls_def split: if_splits)

lemma colors_Inl:
  "read_color_tables c v b sv k e = Inl r \<Longrightarrow> returns qe_invalid r \<and> step_inv k False {Pfread 48} e (final r)"
  by (auto simp: read_color_tables_def extended_color_branch_def
           split: sum.splits if_splits
           dest!: read_colors_Inl read_colors_Inr intro: step_inv_trans_same)

lemma colors_Inr:
  "read_color_tables c v b sv k e = Inr e2 \<Longrightarrow> step_inv k False {Pfread 48} e e2"
  by (cases k)
     (auto simp: read_color_tables_def extended_color_branch_def legacy_color_branch_def
           split: sum.splits if_splits
           dest!: read_colors_Inl read_colors_Inr intro: step_inv_trans_same step_inv_colordata)

lemma names_Inl:
  "read_palnames c v b sv k e = Inl r \<Longrightarrow>
     \<not> legacy_names v b \<and> returns qe_invalid r \<and> step_inv False k {Pfread (PALNAMESIZE c)} e (final r)"
  by (auto simp: read_palnames_def read_names_branch_def Let_def
           split: sum.splits if_splits dest!: read_names_Inl)

lemma names_Inr:
  "read_palnames c v b sv k e = Inr e2 \<Longrightarrow>
     step_inv False k (if legacy_names v b then {Init_palnames} else {Pfread (PALNAMESIZE c)}) e e2"
  by (cases k)
     (auto simp: read_palnames_def read_names_branch_def reset_names_branch_def Let_def
                 step_inv_def frame_def appends_def
           split: sum.splits if_splits dest!: read_names_Inr)

lemma cycles_Inl:
  "read_palcycles v k tm e = Inl r \<Longrightarrow>
     v > 0x192 \<and> \<not> returns qe_OK r \<and> step_inv False False {P_igetw, P_getc} e (final r)"
  by (auto simp: read_palcycles_def Let_def returns_def
           split: sum.splits if_splits prod.splits option.splits
           dest!: read_cycles_Inl p_igetw_inv [where kc = False and kn = False]
           intro: step_inv_trans [where S = "{P_igetw}" and T = "{P_getc}", simplified]
                  step_inv_mono)

lemma appends_trans: "appends S e e1 \<Longrightarrow> appends T e1 e2 \<Longrightarrow> appends (S \<union> T) e e2"
  by (auto simp: appends_def)

lemma cycles_Inr:
  assumes "read_palcycles v k tm e = Inr e4"
  shows "appends (if v > 0x192 then {P_igetw, P_getc} else {}) e e4 \<and>
     colordata e4 = colordata e \<and> palnames e4 = palnames e \<and>
     (if v > 0x192 \<and> k then others (Misc e4) = others tm else Misc e4 = Misc e)"
proof (cases "v > 0x192")
  case False
  with assms show ?thesis by (simp add: read_palcycles_def appends_def)
next
  case True
  obtain w e1 where rd: "p_igetw e = (w, e1)" by (cases "p_igetw e")
  from assms True rd obtain n where w: "w = Some n"
    by (cases w) (simp_all add: read_palcycles_def)
  let ?tm0 = "tm\<lparr>cycles := zero_cycles (cycles tm)\<rparr>"
  from assms True rd w obtain tm' e2 where
    cy: "read_cycles (unat n) 0 ?tm0 e1 = Inr (tm', e2)"
    and e4: "e4 = (if k then e2\<lparr>Misc := tm'\<rparr> else e2)"
    by (auto simp: read_palcycles_def Let_def split: sum.splits)
  from p_igetw_inv [OF rd, of False False] have a: "step_inv False False {P_igetw} e e1" .
  from read_cycles_Inr [OF cy] have b: "step_inv False False {P_getc} e1 e2" "others tm' = others tm"
    by simp_all
  from a b(1) have "appends ({P_igetw} \<union> {P_getc}) e e2"
    unfolding step_inv_def by (blast intro: appends_trans)
  then have "appends {P_igetw, P_getc} e e4"
    using e4 by (cases k) (simp_all add: appends_def insert_commute)
  moreover have "colordata e4 = colordata e" "palnames e4 = palnames e"
    using a b(1) e4 by (auto simp: step_inv_def frame_def)
  moreover have "k \<Longrightarrow> others (Misc e4) = others tm" using e4 b(2) by simp
  moreover have "\<not> k \<Longrightarrow> Misc e4 = Misc e"
    using a b(1) e4 by (auto simp: step_inv_def frame_def)
  ultimately show ?thesis using True by auto
qed

lemma readcolordata_cases [consumes 1, case_names header colors names cycles ok]:
  assumes "readcolordata c e v b k = r"
  obtains
    "read_section_header v e = Inl r"
  | sv e1 where "read_section_header v e = Inr (sv, e1)"
      "read_color_tables c v b sv k e1 = Inl r"
  | sv e1 e2 where "read_section_header v e = Inr (sv, e1)"
      "read_color_tables c v b sv k e1 = Inr e2" "read_palnames c v b sv k e2 = Inl r"
  | sv e1 e2 e3 where "read_section_header v e = Inr (sv, e1)"
      "read_color_tables c v b sv k e1 = Inr e2" "read_palnames c v b sv k e2 = Inr e3"
      "read_palcycles v k (Misc e) e3 = Inl r"
  | sv e1 e2 e3 e4 where "read_section_header v e = Inr (sv, e1)"
      "read_color_tables c v b sv k e1 = Inr e2" "read_palnames c v b sv k e2 = Inr e3"
      "read_palcycles v k (Misc e) e3 = Inr e4" "r = Return qe_OK e4"
  using assms
  by (auto simp: readcolordata_def Let_def split: sum.splits prod.splits)

lemma step_invD:
  "step_inv kc kn S e e' \<Longrightarrow> Misc e' = Misc e \<and> (\<not> kc \<longrightarrow> colordata e' = colordata e) \<and>
     (\<not> kn \<longrightarrow> palnames e' = palnames e)"
  by (simp add: step_inv_def frame_def)

lemma step_inv_calls:
  "step_inv kc kn S e e' \<Longrightarrow> \<exists>xs. calls e' = calls e @ xs \<and> set xs \<subseteq> S"
  by (simp add: step_inv_def appends_def)

lemma ok_not_invalid: "returns qe_OK r \<Longrightarrow> returns qe_invalid r \<Longrightarrow> False"
  by (cases r) (simp_all add: returns_def)

lemma invalid_frame:
  assumes "readcolordata c e version build keepdata = r" and "returns qe_invalid r"
  shows "Misc (final r) = Misc e \<and>
         (\<not> keepdata \<longrightarrow> colordata (final r) = colordata e \<and> palnames (final r) = palnames e)"
  using assms(1)
proof (cases rule: readcolordata_cases)
  case header
  then show ?thesis by (auto dest!: header_Inl)
next
  case (colors sv e1)
  from header_Inr_inv [OF colors(1)] colors_Inl [OF colors(2)]
  show ?thesis by (auto dest!: step_invD)
next
  case (names sv e1 e2)
  from header_Inr_inv [OF names(1)] colors_Inr [OF names(2)] names_Inl [OF names(3)]
  show ?thesis by (auto dest!: step_invD)
next
  case (cycles sv e1 e2 e3)
  from header_Inr_inv [OF cycles(1)] colors_Inr [OF cycles(2)] names_Inr [OF cycles(3)]
    cycles_Inl [OF cycles(4)]
  show ?thesis by (auto dest!: step_invD)
next
  case (ok sv e1 e2 e3 e4)
  with assms(2) show ?thesis by (simp add: returns_def)
qed

lemma dry_run_frame:
  assumes "readcolordata c e version build False = r"
  shows "colordata (final r) = colordata e \<and> palnames (final r) = palnames e \<and>
         Misc (final r) = Misc e"
  using assms(1)
proof (cases rule: readcolordata_cases)
  case header
  then show ?thesis by (auto dest!: header_Inl)
next
  case (colors sv e1)
  from header_Inr_inv [OF colors(1)] colors_Inl [OF colors(2)]
  show ?thesis by (auto dest!: step_invD)
next
  case (names sv e1 e2)
  from header_Inr_inv [OF names(1)] colors_Inr [OF names(2)] names_Inl [OF names(3)]
  show ?thesis by (auto dest!: step_invD)
next
  case (cycles sv e1 e2 e3)
  from header_Inr_inv [OF cycles(1)] colors_Inr [OF cycles(2)] names_Inr [OF cycles(3)]
    cycles_Inl [OF cycles(4)]
  show ?thesis by (auto dest!: step_invD)
next
  case (ok sv e1 e2 e3 e4)
  from header_Inr_inv [OF ok(1)] colors_Inr [OF ok(2)] names_Inr [OF ok(3)]
    cycles_Inr [OF ok(4)] ok(5)
  show ?thesis by (auto dest!: step_invD)
qed

lemma commit_others:
  assumes "readcolordata c e version build True = r" and "version > 0x192"
    and "returns qe_OK r"
  shows "others (Misc (final r)) = others (Misc e)"
  using assms(1)
proof (cases rule: readcolordata_cases)
  case header
  with assms(3) show ?thesis by (auto dest!: header_Inl dest: ok_not_invalid)
next
  case (colors sv e1)
  with assms(3) show ?thesis by (auto dest!: colors_Inl dest: ok_not_invalid)
next
  case (names sv e1 e2)
  with assms(3) show ?thesis by (auto dest!: names_Inl dest: ok_not_invalid)
next
  case (cycles sv e1 e2 e3)
  with assms(3) show ?thesis by (auto dest!: cycles_Inl)
next
  case (ok sv e1 e2 e3 e4)
  from cycles_Inr [OF ok(4)] ok(5) assms(2)
  show ?thesis by simp
qed

section \<open>What the loops compute\<close>

lemma colors_read_simps [simp]:
  "packfile (colors_read k s n e) = drop (48 * n) (packfile e)"
  "colordata (colors_read k s n e) =
     (if k then memcpy_buf (colordata e) (s * 48) (packfile e) (48 * n) else colordata e)"
  "palnames (colors_read k s n e) = palnames e"
  "Misc (colors_read k s n e) = Misc e"
  "calls (colors_read k s n e) = calls e @ replicate n (Pfread 48)"
  by (simp_all add: colors_read_def)

lemma memcpy_buf_0 [simp]: "memcpy_buf m d buf 0 = m"
  by (rule ext) (auto simp: memcpy_buf_def)

lemma memcpy_buf_step:
  assumes "48 \<le> length p"
  shows "memcpy_buf (memcpy_buf m (s * 48) (take 48 p) 48) (Suc s * 48) (drop 48 p) (48 * n)
       = memcpy_buf m (s * 48) p (48 * Suc n)"
proof (rule ext)
  fix x
  have n: "\<And>j. drop 48 p ! j = p ! (48 + j)"
    using assms by simp
  show "memcpy_buf (memcpy_buf m (s * 48) (take 48 p) 48) (Suc s * 48) (drop 48 p) (48 * n) x
       = memcpy_buf m (s * 48) p (48 * Suc n) x"
    by (auto simp: n memcpy_buf_def intro!: arg_cong [where f = "(!) p"])
qed

lemma colors_read_0: "colors_read k s 0 e = e"
  by (simp add: colors_read_def)

lemma colors_read_Suc:
  assumes "48 \<le> length (packfile e)"
  defines "e' \<equiv> (logged (Pfread 48) e)\<lparr>packfile := drop 48 (packfile e)\<rparr>"
  shows "colors_read k (Suc s) m
           (if k then e'\<lparr>colordata := memcpy_buf (colordata e') (s * 48) (take 48 (packfile e)) 48\<rparr>
            else e')
         = colors_read k s (Suc m) e"
  using memcpy_buf_step [OF assms(1), of "colordata e" s m]
  by (cases k) (simp_all add: e'_def colors_read_def logged_def replicate_append_same add.commute)

lemma read_colors_ok:
  "i \<le> n \<Longrightarrow> 48 * (n - i) \<le> length (packfile e) \<Longrightarrow>
     read_colors k b n i e = Inr (colors_read k (b + i) (n - i) e)"
proof (induction k b n i e rule: read_colors.induct)
  case (1 k b n i e)
  show ?case
  proof (cases "i < n")
    case False
    with "1.prems" have "i = n" by simp
    then show ?thesis by (simp add: read_colors.simps [of k b n n e] colors_read_0)
  next
    case lt: True
    with "1.prems" have len: "48 \<le> length (packfile e)" by simp
    let ?e' = "(logged (Pfread 48) e)\<lparr>packfile := drop 48 (packfile e)\<rparr>"
    let ?e = "if k then ?e'\<lparr>colordata := memcpy_buf (colordata ?e') ((b + i) * 48) (take 48 (packfile e)) 48\<rparr> else ?e'"
    from len have rd: "pfread 48 e = (Some (take 48 (packfile e)), ?e')"
      by (simp add: pfread_def)
    have "read_colors k b n (Suc i) ?e = Inr (colors_read k (b + Suc i) (n - Suc i) ?e)"
      using "1.prems" lt
      by (intro "1.IH" [OF lt rd [symmetric] refl]) (auto split: if_splits)
    then have "read_colors k b n (Suc i) ?e = Inr (colors_read k (Suc (b + i)) (n - Suc i) ?e)"
      by simp
    also have "colors_read k (Suc (b + i)) (n - Suc i) ?e = colors_read k (b + i) (Suc (n - Suc i)) e"
      by (rule colors_read_Suc [OF len])
    also have "Suc (n - Suc i) = n - i" using lt by simp
    finally show ?thesis using lt rd by (simp add: read_colors.simps [of k b n i e])
  qed
qed

lemma read_colors_short:
  "m < n - i \<Longrightarrow> 48 * m \<le> length (packfile e) \<Longrightarrow> length (packfile e) < 48 * Suc m \<Longrightarrow>
     read_colors k b n i e = Inl (Return qe_invalid (logged (Pfread 48) (colors_read k (b + i) m e)))"
proof (induction m arbitrary: i e)
  case 0
  then have "pfread 48 e = (None, logged (Pfread 48) e)" by (simp add: pfread_def)
  with 0 show ?case by (simp add: read_colors.simps [of k b n i e] colors_read_0)
next
  case (Suc m)
  then have lt: "i < n" and len: "48 \<le> length (packfile e)" by simp_all
  let ?e' = "(logged (Pfread 48) e)\<lparr>packfile := drop 48 (packfile e)\<rparr>"
  let ?e = "if k then ?e'\<lparr>colordata := memcpy_buf (colordata ?e') ((b + i) * 48) (take 48 (packfile e)) 48\<rparr> else ?e'"
  from len have rd: "pfread 48 e = (Some (take 48 (packfile e)), ?e')"
    by (simp add: pfread_def)
  have "read_colors k b n (Suc i) ?e
      = Inl (Return qe_invalid (logged (Pfread 48) (colors_read k (b + Suc i) m ?e)))"
    using Suc.prems by (intro Suc.IH) (auto split: if_splits)
  then have "read_colors k b n (Suc i) ?e
      = Inl (Return qe_invalid (logged (Pfread 48) (colors_read k (Suc (b + i)) m ?e)))"
    by simp
  also have "colors_read k (Suc (b + i)) m ?e = colors_read k (b + i) (Suc m) e"
    by (rule colors_read_Suc [OF len])
  finally show ?case using lt rd by (simp add: read_colors.simps [of k b n i e])
qed

lemma read_colors_Inr_iff:
  assumes "i \<le> n"
  shows "read_colors k b n i e = Inr e2 \<longleftrightarrow>
     48 * (n - i) \<le> length (packfile e) \<and> e2 = colors_read k (b + i) (n - i) e"
proof (cases "48 * (n - i) \<le> length (packfile e)")
  case True
  with assms show ?thesis by (auto simp: read_colors_ok)
next
  case False
  define m where "m = length (packfile e) div 48"
  have "m < n - i" "48 * m \<le> length (packfile e)" "length (packfile e) < 48 * Suc m"
    using False by (auto simp: m_def less_mult_imp_div_less mult.commute)
  from read_colors_short [OF this] False show ?thesis by simp
qed

lemma names_read_simps [simp]:
  "packfile (names_read c k s n e) = drop (PALNAMESIZE c * n) (packfile e)"
  "palnames (names_read c k s n e) =
     (if k then load_names (palnames e) (PALNAMESIZE c) s (packfile e) n else palnames e)"
  "colordata (names_read c k s n e) = colordata e"
  "Misc (names_read c k s n e) = Misc e"
  "calls (names_read c k s n e) = calls e @ replicate n (Pfread (PALNAMESIZE c))"
  by (simp_all add: names_read_def)

lemma load_names_0 [simp]: "load_names t w s buf 0 = t"
  by (intro ext) (auto simp: load_names_def)

lemma load_names_step:
  assumes "w \<le> length p"
  shows "load_names (memcpy_row t s (take w p) w) w (Suc s) (drop w p) n
       = load_names t w s p (Suc n)"
proof (intro ext)
  fix i j
  have n: "\<And>x. drop w p ! x = p ! (w + x)"
    using assms by simp
  have a: "w + ((i - Suc s) * w + j) = (i - s) * w + j" if "Suc s \<le> i"
  proof -
    from that obtain d where "i - s = Suc d" by (cases "i - s") simp_all
    moreover from this have "i - Suc s = d" by simp
    ultimately show ?thesis by simp
  qed
  show "load_names (memcpy_row t s (take w p) w) w (Suc s) (drop w p) n i j
       = load_names t w s p (Suc n) i j"
  proof (cases "Suc s \<le> i")
    case True
    then show ?thesis by (simp add: load_names_def memcpy_row_def n a)
  next
    case False
    then show ?thesis by (auto simp: load_names_def memcpy_row_def)
  qed
qed

lemma names_read_0: "names_read c k s 0 e = e"
  by (simp add: names_read_def)

lemma names_read_Suc:
  assumes "PALNAMESIZE c \<le> length (packfile e)"
  defines "e' \<equiv> (logged (Pfread (PALNAMESIZE c)) e)\<lparr>packfile := drop (PALNAMESIZE c) (packfile e)\<rparr>"
  shows "names_read c k (Suc s) m
           (if k then e'\<lparr>palnames := memcpy_row (palnames e') s (take (PALNAMESIZE c) (packfile e))
                                     (PALNAMESIZE c)\<rparr>
            else e')
         = names_read c k s (Suc m) e"
  using load_names_step [OF assms(1), of "palnames e" s m]
  by (cases k) (simp_all add: e'_def names_read_def logged_def replicate_append_same add.commute)

lemma read_names_ok:
  "i \<le> n \<Longrightarrow> PALNAMESIZE c * (n - i) \<le> length (packfile e) \<Longrightarrow>
     read_names c k n i e = Inr (names_read c k i (n - i) e)"
proof (induction c k n i e rule: read_names.induct)
  case (1 c k n i e)
  show ?case
  proof (cases "i < n")
    case False
    with "1.prems" have "i = n" by simp
    then show ?thesis by (simp add: read_names.simps [of c k n n e] names_read_0)
  next
    case lt: True
    then obtain d where d: "n - i = Suc d" by (cases "n - i") simp_all
    with "1.prems" have len: "PALNAMESIZE c \<le> length (packfile e)" by simp
    let ?e' = "(logged (Pfread (PALNAMESIZE c)) e)\<lparr>packfile := drop (PALNAMESIZE c) (packfile e)\<rparr>"
    let ?e = "if k then ?e'\<lparr>palnames := memcpy_row (palnames ?e') i (take (PALNAMESIZE c) (packfile e)) (PALNAMESIZE c)\<rparr> else ?e'"
    from len have rd: "pfread (PALNAMESIZE c) e = (Some (take (PALNAMESIZE c) (packfile e)), ?e')"
      by (simp add: pfread_def)
    have d': "n - Suc i = d" using d by simp
    have "PALNAMESIZE c * (n - Suc i) \<le> length (packfile ?e)"
      using "1.prems" d d' by (auto split: if_splits)
    then have "read_names c k n (Suc i) ?e = Inr (names_read c k (Suc i) (n - Suc i) ?e)"
      using lt by (intro "1.IH" [OF lt rd [symmetric] refl]) simp_all
    also have "names_read c k (Suc i) (n - Suc i) ?e = names_read c k i (Suc (n - Suc i)) e"
      by (rule names_read_Suc [OF len])
    also have "Suc (n - Suc i) = n - i" using lt by simp
    finally show ?thesis using lt rd by (simp add: read_names.simps [of c k n i e])
  qed
qed

lemma clear_rows:
  "fold (\<lambda>i t. memset_row t i v w) [a..<b] t =
     (\<lambda>i j. if a \<le> i \<and> i < b \<and> j < w then v else t i j)"
proof (induction b)
  case 0
  then show ?case by simp
next
  case (Suc b)
  show ?case
  proof (cases "a \<le> b")
    case True
    then have "fold (\<lambda>i t. memset_row t i v w) [a..<Suc b] t =
        memset_row (\<lambda>i j. if a \<le> i \<and> i < b \<and> j < w then v else t i j) b v w"
      by (simp add: Suc)
    also have "\<dots> = (\<lambda>i j. if a \<le> i \<and> i < Suc b \<and> j < w then v else t i j)"
      using True by (auto simp: memset_row_def fun_eq_iff)
    finally show ?thesis .
  next
    case False
    then show ?thesis by (auto simp: fun_eq_iff)
  qed
qed

lemma clear_names_eq:
  "clear_names c n t = (\<lambda>i j. if n \<le> i \<and> i < MAXLEVELS c \<and> j < PALNAMESIZE c then 0 else t i j)"
  by (simp add: clear_names_def clear_rows)

lemma zero_slots:
  "fold (\<lambda>j t. t(i := (t i)(j := z (t i j)))) [0..<b] t =
     (\<lambda>i' j. if i' = i \<and> j < b then z (t i' j) else t i' j)"
proof (induction b)
  case 0
  then show ?case by simp
next
  case (Suc b)
  have "fold (\<lambda>j t. t(i := (t i)(j := z (t i j)))) [0..<Suc b] t =
      (\<lambda>t. t(i := (t i)(b := z (t i b)))) (\<lambda>i' j. if i' = i \<and> j < b then z (t i' j) else t i' j)"
    by (simp add: Suc)
  also have "\<dots> = (\<lambda>i' j. if i' = i \<and> j < Suc b then z (t i' j) else t i' j)"
    by (auto simp: fun_eq_iff)
  finally show ?case .
qed

lemma zero_rows:
  "fold (\<lambda>i t i' j. if i' = i \<and> j < b then z (t i' j) else t i' j) [0..<a] t =
     (\<lambda>i j. if i < a \<and> j < b then z (t i j) else t i j)"
proof (induction a)
  case 0
  then show ?case by simp
next
  case (Suc a)
  let ?F = "\<lambda>i t i' j. if i' = i \<and> j < b then z (t i' j) else t i' j"
  have "fold ?F [0..<Suc a] t = ?F a (fold ?F [0..<a] t)"
    by simp
  also have "\<dots> = ?F a (\<lambda>i j. if i < a \<and> j < b then z (t i j) else t i j)"
    by (simp only: Suc)
  also have "\<dots> = (\<lambda>i j. if i < Suc a \<and> j < b then z (t i j) else t i j)"
    by (auto simp: fun_eq_iff)
  finally show ?case .
qed

lemma no_cycle_upd: "p\<lparr>first := 0, count := 0, speed := 0\<rparr> = no_cycle"
  by (cases p) (simp add: no_cycle_def)

lemma zero_cycles_eq:
  "zero_cycles t = (\<lambda>i j. if i < 256 \<and> j < 3 then no_cycle else t i j)"
proof -
  let ?z = "\<lambda>p :: palcycle. p\<lparr>first := 0, count := 0, speed := 0\<rparr>"
  have eq: "fold (\<lambda>j t. t(i := (t i)(j := (t i j)\<lparr>first := 0, count := 0, speed := 0\<rparr>))) [0..<3] =
      (\<lambda>t i' j. if i' = i \<and> j < 3 then ?z (t i' j) else t i' j)" for i
    using zero_slots [where z = ?z and b = 3 and i = i] by (intro ext) simp
  have "zero_cycles t =
      fold (\<lambda>i t i' j. if i' = i \<and> j < 3 then ?z (t i' j) else t i' j) [0..<256] t"
    by (simp only: zero_cycles_def eq)
  also have "\<dots> = (\<lambda>i j. if i < 256 \<and> j < 3 then ?z (t i j) else t i j)"
    by (rule zero_rows [where z = ?z])
  finally show ?thesis by (simp add: no_cycle_upd cong: if_cong)
qed

lemma read_slots_ok:
  assumes "i < 256" and "3 \<le> length (packfile e)"
  shows "read_slots put i 0 tm e =
     Inr (tm\<lparr>cycles := (\<lambda>a b. if a = i \<and> b < 3 then put (packfile e ! b) (cycles tm a b)
                                else cycles tm a b)\<rparr>,
          e\<lparr>packfile := drop 3 (packfile e), calls := calls e @ replicate 3 P_getc\<rparr>)"
proof -
  have "(cycles tm)
          (i := (cycles tm i)
             (0 := put (packfile e ! 0) (cycles tm i 0),
              Suc 0 := put (packfile e ! Suc 0) (cycles tm i (Suc 0)),
              Suc (Suc 0) := put (packfile e ! Suc (Suc 0)) (cycles tm i (Suc (Suc 0)))))
      = (\<lambda>a b. if a = i \<and> b < 3 then put (packfile e ! b) (cycles tm a b) else cycles tm a b)"
    by (auto simp: fun_eq_iff less_Suc_eq numeral_3_eq_3)
  then show ?thesis
    using assms
    by (auto simp add: read_slots.simps [of put i 0] read_slots.simps [of put i "Suc 0"]
          read_slots.simps [of put i "Suc (Suc 0)"] read_slots.simps [of put i "Suc (Suc (Suc 0))"]
          p_getc_def logged_def numeral_3_eq_3 nth_drop)
qed

lemma load_cycles_0 [simp]: "load_cycles t s buf 0 = t"
  by (intro ext) (auto simp: load_cycles_def)

lemma cycles_read_0: "cycles_read s 0 tm e = (tm, e)"
  by (simp add: cycles_read_def)

lemma load_cycles_step:
  assumes "9 \<le> length p"
  shows "load_cycles (load_cycles t s p 1) (Suc s) (drop 9 p) n = load_cycles t s p (Suc n)"
proof (intro ext)
  fix i j
  have n: "\<And>x. drop 9 p ! x = p ! (9 + x)"
    using assms by simp
  show "load_cycles (load_cycles t s p 1) (Suc s) (drop 9 p) n i j = load_cycles t s p (Suc n) i j"
  proof (cases "Suc s \<le> i")
    case True
    then obtain d where i: "i = Suc s + d" by (auto simp: le_iff_add)
    have "Suc s + d - s = Suc d" by simp
    then show ?thesis
      by (simp add: i load_cycles_def n add.assoc del: add_Suc)
  next
    case False
    then show ?thesis by (auto simp: load_cycles_def)
  qed
qed

lemma read_cycles_step:
  assumes "i < n" and "i < 256" and "9 \<le> length (packfile e)"
  shows "read_cycles n i tm e =
     read_cycles n (Suc i) (fst (cycles_read i 1 tm e)) (snd (cycles_read i 1 tm e))"
proof -
  let ?p = "packfile e"
  let ?e1 = "e\<lparr>packfile := drop 3 ?p, calls := calls e @ replicate 3 P_getc\<rparr>"
  let ?tm1 = "tm\<lparr>cycles := (\<lambda>a b. if a = i \<and> b < 3 then (cycles tm a b)\<lparr>first := ?p ! b\<rparr>
                                else cycles tm a b)\<rparr>"
  let ?e2 = "?e1\<lparr>packfile := drop 3 (packfile ?e1), calls := calls ?e1 @ replicate 3 P_getc\<rparr>"
  let ?tm2 = "?tm1\<lparr>cycles := (\<lambda>a b. if a = i \<and> b < 3
                                then (cycles ?tm1 a b)\<lparr>count := packfile ?e1 ! b\<rparr>
                                else cycles ?tm1 a b)\<rparr>"
  let ?e3 = "?e2\<lparr>packfile := drop 3 (packfile ?e2), calls := calls ?e2 @ replicate 3 P_getc\<rparr>"
  let ?tm3 = "?tm2\<lparr>cycles := (\<lambda>a b. if a = i \<and> b < 3
                                then (cycles ?tm2 a b)\<lparr>speed := packfile ?e2 ! b\<rparr>
                                else cycles ?tm2 a b)\<rparr>"
  have s1: "read_slots (\<lambda>v p. p\<lparr>first := v\<rparr>) i 0 tm e = Inr (?tm1, ?e1)"
    using assms by (intro read_slots_ok) simp_all
  have s2: "read_slots (\<lambda>v p. p\<lparr>count := v\<rparr>) i 0 ?tm1 ?e1 = Inr (?tm2, ?e2)"
    using assms by (intro read_slots_ok) simp_all
  have s3: "read_slots (\<lambda>v p. p\<lparr>speed := v\<rparr>) i 0 ?tm2 ?e2 = Inr (?tm3, ?e3)"
    using assms by (intro read_slots_ok) simp_all
  have t: "?tm3 = fst (cycles_read i 1 tm e)"
    using assms(3)
    by (auto simp: cycles_read_def load_cycles_def fun_eq_iff add.commute)
  have e: "?e3 = snd (cycles_read i 1 tm e)"
    by (simp add: cycles_read_def replicate_add [symmetric])
  have "read_cycles n i tm e = read_cycles n (Suc i) ?tm3 ?e3"
    by (subst read_cycles.simps) (simp only: assms(1) if_True s1 s2 s3 sum.case prod.case)
  then show ?thesis by (simp only: t e)
qed

lemma cycles_read_Suc:
  assumes "9 \<le> length (packfile e)"
  shows "cycles_read (Suc s) m (fst (cycles_read s 1 tm e)) (snd (cycles_read s 1 tm e))
       = cycles_read s (Suc m) tm e"
  using load_cycles_step [OF assms, of "cycles tm" s m]
  by (simp add: cycles_read_def replicate_add [symmetric] add.commute)

lemma read_cycles_ok:
  "d = n - i \<Longrightarrow> i \<le> n \<Longrightarrow> n \<le> 256 \<Longrightarrow> 9 * d \<le> length (packfile e) \<Longrightarrow>
     read_cycles n i tm e = Inr (cycles_read i d tm e)"
proof (induction d arbitrary: i tm e)
  case 0
  then have "i = n" by simp
  then show ?case by (simp add: read_cycles.simps [of n n tm e] cycles_read_0)
next
  case (Suc d)
  then have lt: "i < n" "i < 256" and len: "9 \<le> length (packfile e)" by simp_all
  have "read_cycles n i tm e =
      read_cycles n (Suc i) (fst (cycles_read i 1 tm e)) (snd (cycles_read i 1 tm e))"
    by (rule read_cycles_step [OF lt len])
  also have "\<dots> = Inr (cycles_read (Suc i) d (fst (cycles_read i 1 tm e)) (snd (cycles_read i 1 tm e)))"
    using Suc.prems by (intro Suc.IH) (simp_all add: cycles_read_def)
  also have "\<dots> = Inr (cycles_read i (Suc d) tm e)"
    by (simp only: cycles_read_Suc [OF len])
  finally show ?case .
qed

lemma read_cycles_fault:
  "d = 256 - i \<Longrightarrow> i \<le> 256 \<Longrightarrow> 256 < n \<Longrightarrow> 9 * d + 1 \<le> length (packfile e) \<Longrightarrow>
     \<exists>e'. read_cycles n i tm e = Inl (Fault 256 e')"
proof (induction d arbitrary: i tm e)
  case 0
  then have i: "i = 256" and len: "1 \<le> length (packfile e)" by simp_all
  show ?case using len "0.prems"(3)
    by (simp add: i read_cycles.simps [of n 256 tm e] read_slots.simps [of _ 256 0] p_getc_def)
next
  case (Suc d)
  then have lt: "i < n" "i < 256" and len: "9 \<le> length (packfile e)" by simp_all
  have "read_cycles n i tm e =
      read_cycles n (Suc i) (fst (cycles_read i 1 tm e)) (snd (cycles_read i 1 tm e))"
    by (rule read_cycles_step [OF lt len])
  moreover have "\<exists>e'. read_cycles n (Suc i) (fst (cycles_read i 1 tm e)) (snd (cycles_read i 1 tm e))
      = Inl (Fault 256 e')"
    using Suc.prems by (intro Suc.IH) (simp_all add: cycles_read_def)
  ultimately show ?case by simp
qed

lemma header_ok:
  "header_size version \<le> length (packfile e) \<Longrightarrow>
     read_section_header version e =
       Inr (section_version version (packfile e), header_done version e)"
  by (auto simp: read_section_header_def header_size_def section_version_def header_done_def
        p_igetw_def p_igetl_def logged_def split: if_splits)

lemma header_done_simps [simp]:
  "packfile (header_done v e) = drop (header_size v) (packfile e)"
  "colordata (header_done v e) = colordata e"
  "palnames (header_done v e) = palnames e"
  "Misc (header_done v e) = Misc e"
  "calls (header_done v e) = calls e @ (if v > 0x192 then [P_igetw, P_igetw, P_igetl] else [])"
  by (simp_all add: header_done_def header_size_def)

lemma colors_ok:
  assumes "48 * color_records c v b sv \<le> length (packfile e)"
  shows "read_color_tables c v b sv k e = Inr (colors_done c v b sv k e)"
proof -
  have 1: "read_colors k 0 (oldpdTOTAL c) 0 e = Inr (colors_read k 0 (oldpdTOTAL c) e)"
    using assms read_colors_ok [of 0 "oldpdTOTAL c" e k 0]
    by (simp add: color_records_def split: if_splits)
  show ?thesis
  proof (cases "legacy_colors v b")
    case True
    then show ?thesis by (simp add: read_color_tables_def colors_done_def 1)
  next
    case False
    let ?e1 = "colors_read k 0 (oldpdTOTAL c) e"
    let ?n2 = "newpdTOTAL c - oldpdTOTAL c"
    have 2: "read_colors k (oldpdTOTAL c) ?n2 0 ?e1 = Inr (colors_read k (oldpdTOTAL c) ?n2 ?e1)"
      using assms False read_colors_ok [of 0 ?n2 ?e1 k "oldpdTOTAL c"]
      by (simp add: color_records_def split: if_splits)
    show ?thesis
    proof (cases "sv < 4")
      case True
      with False show ?thesis
        by (simp add: read_color_tables_def extended_color_branch_def colors_done_def 1 2)
    next
      case ge: False
      let ?e2 = "colors_read k (oldpdTOTAL c) ?n2 ?e1"
      let ?n3 = "newerpdTOTAL c - newpdTOTAL c"
      have 3: "read_colors k (newpdTOTAL c) ?n3 0 ?e2 = Inr (colors_read k (newpdTOTAL c) ?n3 ?e2)"
        using assms False ge read_colors_ok [of 0 ?n3 ?e2 k "newpdTOTAL c"]
        by (simp add: color_records_def)
      with False ge show ?thesis
        by (simp add: read_color_tables_def extended_color_branch_def colors_done_def 1 2)
    qed
  qed
qed

lemma colors_done_simps [simp]:
  "packfile (colors_done c v b sv k e) = drop (48 * color_records c v b sv) (packfile e)"
  "palnames (colors_done c v b sv k e) = palnames e"
  "Misc (colors_done c v b sv k e) = Misc e"
  "calls (colors_done c v b sv k e) = calls e @ replicate (color_records c v b sv) (Pfread 48)"
  "colordata (colors_done c v b sv False e) = colordata e"
  by (simp_all add: colors_done_def color_records_def legacy_color_branch_def Let_def
        add.commute replicate_add [symmetric] distrib_left)

lemma names_ok:
  assumes "names_size c v b sv \<le> length (packfile e)"
  shows "read_palnames c v b sv k e = Inr (names_done c v b sv k e)"
proof (cases "legacy_names v b")
  case True
  then show ?thesis by (simp add: read_palnames_def names_done_def)
next
  case False
  with assms show ?thesis
    using read_names_ok [of 0 "names_count c sv" c e k]
    by (simp add: read_palnames_def read_names_branch_def names_done_def names_size_def
          names_count_def Let_def)
qed

lemma names_done_simps [simp]:
  "packfile (names_done c v b sv k e) = drop (names_size c v b sv) (packfile e)"
  "colordata (names_done c v b sv k e) = colordata e"
  "Misc (names_done c v b sv k e) = Misc e"
  "calls (names_done c v b sv k e) = calls e @
     (if legacy_names v b then (if k then [Init_palnames] else [])
      else replicate (names_count c sv) (Pfread (PALNAMESIZE c)))"
  "palnames (names_done c v b sv False e) = palnames e"
  by (simp_all add: names_done_def names_size_def reset_names_branch_def Let_def)

lemma cycles_skip: "\<not> v > 0x192 \<Longrightarrow> read_palcycles v k tm e = Inr e"
  by (simp add: read_palcycles_def)

lemma cycles_ok:
  assumes "v > 0x192" and "cycles_count (packfile e) \<le> 256"
    and "2 + 9 * cycles_count (packfile e) \<le> length (packfile e)"
  shows "read_palcycles v k tm e = Inr (cycles_done v k tm e)"
proof -
  let ?n = "cycles_count (packfile e)"
  let ?e1 = "(logged P_igetw e)\<lparr>packfile := drop 2 (packfile e)\<rparr>"
  let ?tm0 = "tm\<lparr>cycles := zero_cycles (cycles tm)\<rparr>"
  from assms have rd: "p_igetw e = (Some (word_cat (packfile e ! 1) (packfile e ! 0)), ?e1)"
    by (simp add: p_igetw_def)
  have "read_cycles ?n 0 ?tm0 ?e1 = Inr (cycles_read 0 ?n ?tm0 ?e1)"
    using assms by (intro read_cycles_ok) simp_all
  then show ?thesis using assms(1) rd
    by (simp add: read_palcycles_def cycles_done_def cycles_read_def cycles_count_def
          logged_def Let_def)
qed

lemma cycles_fault:
  assumes "v > 0x192" and "256 < cycles_count (packfile e)"
    and "2 + 9 * 256 + 1 \<le> length (packfile e)"
  shows "\<exists>e'. read_palcycles v k tm e = Inl (Fault 256 e')"
proof -
  let ?n = "cycles_count (packfile e)"
  let ?e1 = "(logged P_igetw e)\<lparr>packfile := drop 2 (packfile e)\<rparr>"
  let ?tm0 = "tm\<lparr>cycles := zero_cycles (cycles tm)\<rparr>"
  from assms have rd: "p_igetw e = (Some (word_cat (packfile e ! 1) (packfile e ! 0)), ?e1)"
    by (simp add: p_igetw_def)
  have "\<exists>e'. read_cycles ?n 0 ?tm0 ?e1 = Inl (Fault 256 e')"
    using assms by (intro read_cycles_fault [where d = 256]) simp_all
  then show ?thesis using assms(1) rd
    by (auto simp: read_palcycles_def cycles_count_def Let_def)
qed

lemma decode_to_cycles:
  assumes "section_offset c v b (packfile e) \<le> length (packfile e)"
  shows "readcolordata c e v b k =
     (case read_palcycles v k (Misc e) (before_cycles c v b k e) of
        Inl r \<Rightarrow> r | Inr e4 \<Rightarrow> Return qe_OK e4)"
proof -
  let ?sv = "section_version v (packfile e)"
  from assms have h: "header_size v \<le> length (packfile e)"
    by (simp add: section_offset_def Let_def)
  from assms have c: "48 * color_records c v b ?sv \<le> length (packfile (header_done v e))"
    by (simp add: section_offset_def Let_def)
  from assms have n: "names_size c v b ?sv \<le> length (packfile (colors_done c v b ?sv k (header_done v e)))"
    by (simp add: section_offset_def Let_def)
  show ?thesis
    by (simp add: readcolordata_def header_ok [OF h] colors_ok [OF c] names_ok [OF n]
          before_cycles_def Let_def)
qed

lemma before_cycles_simps [simp]:
  "packfile (before_cycles c v b k e) = drop (section_offset c v b (packfile e)) (packfile e)"
  "Misc (before_cycles c v b k e) = Misc e"
  "colordata (before_cycles c v b False e) = colordata e"
  "palnames (before_cycles c v b False e) = palnames e"
  by (simp_all add: before_cycles_def section_offset_def Let_def add.commute add.left_commute)

lemma decode_ok:
  assumes "section_offset c v b (packfile e) \<le> length (packfile e)"
    and "v > 0x192 \<longrightarrow>
           cycles_count (drop (section_offset c v b (packfile e)) (packfile e)) \<le> 256 \<and>
           section_offset c v b (packfile e) + 2 +
             9 * cycles_count (drop (section_offset c v b (packfile e)) (packfile e))
           \<le> length (packfile e)"
  shows "readcolordata c e v b k =
           Return qe_OK (cycles_done v k (Misc e) (before_cycles c v b k e))"
proof (cases "v > 0x192")
  case True
  with assms(2) have "read_palcycles v k (Misc e) (before_cycles c v b k e) =
      Inr (cycles_done v k (Misc e) (before_cycles c v b k e))"
    by (intro cycles_ok) auto
  then show ?thesis by (simp add: decode_to_cycles [OF assms(1)])
next
  case False
  then show ?thesis
    by (simp add: decode_to_cycles [OF assms(1)] cycles_skip cycles_done_def)
qed

lemma decode_fault:
  assumes "section_offset c v b (packfile e) \<le> length (packfile e)"
    and "v > 0x192"
    and "256 < cycles_count (drop (section_offset c v b (packfile e)) (packfile e))"
    and "section_offset c v b (packfile e) + 2307 \<le> length (packfile e)"
  shows "\<exists>e'. readcolordata c e v b k = Fault 256 e'"
proof -
  have "\<exists>e'. read_palcycles v k (Misc e) (before_cycles c v b k e) = Inl (Fault 256 e')"
    using assms by (intro cycles_fault) auto
  then show ?thesis by (auto simp: decode_to_cycles [OF assms(1)])
qed

lemma sample_env_simps [simp]:
  "packfile (sample_env p) = p"
  "colordata (sample_env p) = (\<lambda>_. 9)"
  "palnames (sample_env p) = (\<lambda>_ _. 9)"
  "Misc (sample_env p) = \<lparr>cycles = (\<lambda>_ _. \<lparr>first = 9, count = 9, speed = 9\<rparr>), others = 9\<rparr>"
  "calls (sample_env p) = []"
  by (simp_all add: sample_env_def)

lemma zc_defs_simps [simp]:
  "oldpdTOTAL zc_defs = 240" "newpdTOTAL zc_defs = 3373" "newerpdTOTAL zc_defs = 6701"
  "oldpoSPRITE zc_defs = 210" "newpoSPRITE zc_defs = 3343" "newerpoSPRITE zc_defs = 6671"
  "PALNAMESIZE zc_defs = 17" "OLDMAXLEVELS zc_defs = 256" "MAXLEVELS zc_defs = 512"
  "init_palnames zc_defs = (\<lambda>t i j. if i < 512 \<and> j < 17 then 0 else t i j)"
  by (simp_all add: zc_defs_def)

lemma cat1: "(word_cat (1 :: byte) (1 :: byte) :: word16) = 257"
  by (simp add: word_cat_eq)

section \<open>The routine as a whole\<close>

lemma issued_eq: "calls (final r) = calls e @ xs \<Longrightarrow> issued e r = xs"
  by (simp add: issued_def)

lemma appends_mono: "appends S e e' \<Longrightarrow> S \<subseteq> T \<Longrightarrow> appends T e e'"
  by (auto simp: appends_def)

lemma step_inv_appends: "step_inv kc kn S e e' \<Longrightarrow> appends S e e'"
  by (simp add: step_inv_def)

lemma appends_refl [simp]: "appends S e e"
  by (simp add: appends_def)

lemma calls_after_header:
  assumes "readcolordata c e v b k = r" and hd: "read_section_header v e = Inr (sv, e1)"
  shows "appends ({Pfread 48, Pfread (PALNAMESIZE c), Init_palnames} \<union>
                  (if v > 0x192 then {P_igetw, P_getc} else {})) e1 (final r)"
    (is "appends ?S e1 (final r)")
  using assms(1)
proof (cases rule: readcolordata_cases)
  case header
  with hd show ?thesis by simp
next
  case (colors sv' e1')
  with hd have "appends {Pfread 48} e1 (final r)"
    by (auto dest!: colors_Inl step_inv_appends)
  then show ?thesis by (rule appends_mono) auto
next
  case (names sv' e1' e2)
  with hd have "appends {Pfread 48} e1 e2" "appends {Pfread (PALNAMESIZE c)} e2 (final r)"
    by (auto dest!: colors_Inr names_Inl step_inv_appends)
  then have "appends ({Pfread 48} \<union> {Pfread (PALNAMESIZE c)}) e1 (final r)"
    by (rule appends_trans)
  then show ?thesis by (rule appends_mono) auto
next
  case (cycles sv' e1' e2 e3)
  with hd have a: "appends {Pfread 48} e1 e2"
    and b: "appends {Init_palnames, Pfread (PALNAMESIZE c)} e2 e3"
    and c: "appends {P_igetw, P_getc} e3 (final r)" and v: "v > 0x192"
    by (auto dest!: colors_Inr names_Inr cycles_Inl step_inv_appends
             elim: appends_mono split: if_splits)
  from appends_trans [OF appends_trans [OF a b] c]
  show ?thesis by (rule appends_mono) (use v in auto)
next
  case (ok sv' e1' e2 e3 e4)
  with hd have a: "appends {Pfread 48} e1 e2"
    and b: "appends {Init_palnames, Pfread (PALNAMESIZE c)} e2 e3"
    and c: "appends (if v > 0x192 then {P_igetw, P_getc} else {}) e3 (final r)"
    by (auto dest!: colors_Inr names_Inr cycles_Inr step_inv_appends
             elim: appends_mono split: if_splits)
  from appends_trans [OF appends_trans [OF a b] c]
  show ?thesis by (rule appends_mono) auto
qed

lemma old_version_calls:
  assumes "readcolordata c e v b k = r" and "v \<le> 0x192"
  shows "set (issued e r) \<subseteq> {Pfread 48, Pfread (PALNAMESIZE c), Init_palnames}"
proof -
  from assms(2) have hd: "read_section_header v e = Inr (0, e)"
    by (simp add: read_section_header_def not_less [symmetric])
  from calls_after_header [OF assms(1) hd] assms(2)
  show ?thesis by (auto simp: appends_def issued_def not_less [symmetric])
qed

lemma header_calls_first:
  assumes "readcolordata c e v b k = r" and "v > 0x192"
  shows "if length (packfile e) < 8
         then returns qe_invalid r \<and> colordata (final r) = colordata e \<and>
              palnames (final r) = palnames e \<and> Misc (final r) = Misc e \<and>
              issued e r = take (if length (packfile e) < 2 then 1
                                 else if length (packfile e) < 4 then 2 else 3)
                             [P_igetw, P_igetw, P_igetl]
         else \<exists>xs. issued e r = [P_igetw, P_igetw, P_igetl] @ xs"
proof (cases "length (packfile e) < 8")
  case True
  have "\<not> 2 \<le> length (packfile e) - 2" if "length (packfile e) < 4"
    using that by auto
  moreover have "\<not> 4 \<le> length (packfile e) - 4" using True by auto
  ultimately show ?thesis using True assms
    by (auto simp: readcolordata_def read_section_header_def p_igetw_def p_igetl_def
          returns_def issued_def Let_def)
next
  case False
  with assms(2) have hd: "read_section_header v e =
      Inr (section_version v (packfile e), header_done v e)"
    by (intro header_ok) (simp add: header_size_def)
  from calls_after_header [OF assms(1) hd] assms(2) False
  show ?thesis by (auto simp: appends_def issued_def)
qed

lemma relocate_chain:
  fixes old new :: nat
  shows "memset (memcpy (memcpy (memcpy (memset (memcpy m new old 1440) old 0 (new - old))
            (new + 528) (new + 480) 48) (new + 480) (new + 432) 48) (new + 432) (new + 384) 48)
            (new + 384) 0 48 x
     = (if old \<le> x \<and> x < new then 0
        else if new + 384 \<le> x \<and> x < new + 432 then 0
        else if new + 432 \<le> x \<and> x < new + 576 then m (old + (x - new) - 48)
        else if new \<le> x \<and> x < new + 1440 then m (old + (x - new))
        else m x)"
proof -
  have g: "(old \<le> y \<and> y < old + (new - old)) = (old \<le> y \<and> y < new)" for y
    by auto
  consider "x < new" | d where "x = new + d" "d < 384" | d where "x = new + 384 + d" "d < 48"
    | d where "x = new + 432 + d" "d < 48" | d where "x = new + 480 + d" "d < 48"
    | d where "x = new + 528 + d" "d < 48" | d where "x = new + 576 + d" "d < 864"
    | "new + 1440 \<le> x"
  proof -
    have "x < new \<or> (\<exists>d. x = new + d)"
      using le_Suc_ex [of new x] by (cases "x < new") auto
    then show ?thesis
    proof
      assume "x < new" then show ?thesis by (rule that(1))
    next
      assume "\<exists>d. x = new + d"
      then obtain d where x: "x = new + d" ..
      consider "d < 384" | "384 \<le> d" "d < 432" | "432 \<le> d" "d < 480" | "480 \<le> d" "d < 528"
        | "528 \<le> d" "d < 576" | "576 \<le> d" "d < 1440" | "1440 \<le> d" by linarith
      then show ?thesis
      proof cases
        case 1 with x show ?thesis by (intro that(2)) 
      next
        case 2 with x show ?thesis by (intro that(3) [of "d - 384"]) simp_all
      next
        case 3 with x show ?thesis by (intro that(4) [of "d - 432"]) simp_all
      next
        case 4 with x show ?thesis by (intro that(5) [of "d - 480"]) simp_all
      next
        case 5 with x show ?thesis by (intro that(6) [of "d - 528"]) simp_all
      next
        case 6 with x show ?thesis by (intro that(7) [of "d - 576"]) simp_all
      next
        case 7 with x show ?thesis by (intro that(8)) simp
      qed
    qed
  qed
  then show ?thesis
  proof cases
    case 1
    then show ?thesis by (simp add: memcpy_def memset_def g)
  next
    case 2
    then show ?thesis by (simp add: memcpy_def memset_def g)
  next
    case 3
    then show ?thesis by (simp add: memcpy_def memset_def g)
  next
    case 4
    then show ?thesis by (simp add: memcpy_def memset_def g add_ac)
  next
    case 5
    then show ?thesis by (simp add: memcpy_def memset_def g add_ac)
  next
    case 6
    then show ?thesis by (simp add: memcpy_def memset_def g add_ac)
  next
    case 7
    then show ?thesis by (simp add: memcpy_def memset_def g add_ac)
  next
    case 8
    then show ?thesis by (simp add: memcpy_def memset_def g)
  qed
qed

lemma relocate_old_eq: "relocate_old c m = migrated c m"
proof (rule ext)
  fix x
  show "relocate_old c m x = migrated c m x"
    using relocate_chain [of m "newerpoSPRITE c * 48" "oldpoSPRITE c * 48" x]
    by (simp add: relocate_old_def migrated_def Let_def diff_mult_distrib add_mult_distrib)
qed

lemma cycles_done_simps [simp]:
  "packfile (cycles_done v k tm e) =
     (if v > 0x192 then drop (2 + 9 * cycles_count (packfile e)) (packfile e) else packfile e)"
  "colordata (cycles_done v k tm e) = colordata e"
  "palnames (cycles_done v k tm e) = palnames e"
  "calls (cycles_done v k tm e) = calls e @
     (if v > 0x192 then P_igetw # replicate (9 * cycles_count (packfile e)) P_getc else [])"
  "Misc (cycles_done v k tm e) =
     (if v > 0x192 \<and> k
      then tm\<lparr>cycles := load_cycles (zero_cycles (cycles tm)) 0 (drop 2 (packfile e))
                            (cycles_count (packfile e))\<rparr>
      else Misc e)"
  by (simp_all add: cycles_done_def Let_def)

lemma before_cycles_calls:
  "calls (before_cycles c v b k e) = calls e @
     (if v > 0x192 then [P_igetw, P_igetw, P_igetl] else []) @
     replicate (color_records c v b (section_version v (packfile e))) (Pfread 48) @
     (if legacy_names v b then (if k then [Init_palnames] else [])
      else replicate (names_count c (section_version v (packfile e))) (Pfread (PALNAMESIZE c)))"
  by (simp add: before_cycles_def Let_def)

lemma names_done_palnames:
  "palnames (names_done c v b sv True e) =
     (if legacy_names v b then init_palnames c (palnames e)
      else clear_names c (names_count c sv)
             (load_names (palnames e) (PALNAMESIZE c) 0 (packfile e) (names_count c sv)))"
  by (simp add: names_done_def reset_names_branch_def Let_def)

lemma before_cycles_palnames:
  "palnames (before_cycles c v b True e) =
     (if legacy_names v b then init_palnames c (palnames e)
      else clear_names c (names_count c (section_version v (packfile e)))
             (load_names (palnames e) (PALNAMESIZE c) 0
                (drop (header_size v + 48 * color_records c v b (section_version v (packfile e)))
                   (packfile e))
                (names_count c (section_version v (packfile e)))))"
  by (simp add: before_cycles_def names_done_palnames Let_def add.commute)

lemma legacy_colors_old: "legacy_colors v b \<Longrightarrow> \<not> v > 0x192 \<and> legacy_names v b"
proof -
  have "(73 :: word16) < 76" by simp
  then have "b < 73 \<Longrightarrow> b < 76" by (rule order.strict_trans [rotated])
  then show "legacy_colors v b \<Longrightarrow> \<not> v > 0x192 \<and> legacy_names v b"
    by (auto simp: legacy_colors_def legacy_names_def)
qed

lemma legacy_names_old: "legacy_names v b \<Longrightarrow> \<not> v > 0x192"
  by (auto simp: legacy_names_def)

lemma old_section_offset:
  "\<not> v > 0x192 \<Longrightarrow> section_offset c v b p =
     48 * color_records c v b 0 + names_size c v b 0"
  by (simp add: section_offset_def section_version_def header_size_def)

lemma old_decode_ok:
  assumes "\<not> v > 0x192" and "48 * color_records c v b 0 + names_size c v b 0 \<le> length (packfile e)"
  shows "readcolordata c e v b k = Return qe_OK (before_cycles c v b k e)"
  using decode_ok [of c v b e k] assms
  by (simp add: old_section_offset cycles_done_def)

lemma returns_Return [simp]: "returns st (Return st' e) \<longleftrightarrow> st' = st"
  by (simp add: returns_def)

lemma returned_Return [simp]: "returned (Return st e)"
  by (simp add: returned_def)

lemma issued_Return: "issued e (Return st e') = drop (length (calls e)) (calls e')"
  by (simp add: issued_def)

lemma sample_section_simps:
  "length sample_section = 166275"
  "section_version 0x193 sample_section = 0"
  "section_offset zc_defs 0x193 b sample_section = 166264"
  "drop 166264 sample_section = [1, 0, 10, 11, 12, 20, 21, 22, 30, 31, 32]"
  "cycles_count [1, 0, 10, 11, 12, 20, 21, 22, 30, 31, 32] = 1"
  by (simp_all add: sample_section_def section_version_def section_offset_def header_size_def
        color_records_def names_size_def names_count_def legacy_colors_def legacy_names_def
        nth_append cycles_count_def word_cat_eq)

lemma sample_decode:
  "readcolordata zc_defs (sample_env sample_section) 0x193 b k =
     Return qe_OK (cycles_done 0x193 k (Misc (sample_env sample_section))
                     (before_cycles zc_defs 0x193 b k (sample_env sample_section)))"
  by (rule decode_ok) (simp_all add: sample_section_simps)

lemma legacy_decode:
  assumes "legacy_colors v b" and "48 * oldpdTOTAL c \<le> length (packfile e)"
  shows "readcolordata c e v b k = Return qe_OK (before_cycles c v b k e)"
    and "packfile (before_cycles c v b k e) = drop (48 * oldpdTOTAL c) (packfile e)"
    and "calls (before_cycles c v b k e) =
           calls e @ replicate (oldpdTOTAL c) (Pfread 48) @ (if k then [Init_palnames] else [])"
    and "colordata (before_cycles c v b k e) =
           (if k then migrated c (memcpy_buf (colordata e) 0 (packfile e) (48 * oldpdTOTAL c))
            else colordata e)"
proof -
  from assms(1) have old: "\<not> v > 0x192" and ln: "legacy_names v b"
    by (simp_all add: legacy_colors_old)
  have cr: "color_records c v b 0 = oldpdTOTAL c" "names_size c v b 0 = 0"
    using assms(1) ln by (simp_all add: color_records_def names_size_def)
  show "readcolordata c e v b k = Return qe_OK (before_cycles c v b k e)"
    using assms(2) by (intro old_decode_ok [OF old]) (simp add: cr)
  show "packfile (before_cycles c v b k e) = drop (48 * oldpdTOTAL c) (packfile e)"
    using old by (simp add: old_section_offset cr)
  show "calls (before_cycles c v b k e) =
      calls e @ replicate (oldpdTOTAL c) (Pfread 48) @ (if k then [Init_palnames] else [])"
    using old ln by (simp add: before_cycles_calls section_version_def cr)
  show "colordata (before_cycles c v b k e) =
      (if k then migrated c (memcpy_buf (colordata e) 0 (packfile e) (48 * oldpdTOTAL c))
       else colordata e)"
    using old assms(1)
    by (cases k)
       (simp_all add: before_cycles_def section_version_def colors_done_def
          legacy_color_branch_def header_done_def relocate_old_eq Let_def)
qed

lemma no_cycle_upd3 [simp]:
  "no_cycle\<lparr>first := a, count := b, speed := c\<rparr> = \<lparr>first = a, count = b, speed = c\<rparr>"
  by (simp add: no_cycle_def)

lemma loaded_cycle:
  assumes "i < 256" and "j < 3" and "2 \<le> length q"
  shows "load_cycles (zero_cycles t) 0 (drop 2 q) n i j =
     (if i < n
      then \<lparr>first = q ! (2 + 9 * i + j), count = q ! (2 + 9 * i + 3 + j),
            speed = q ! (2 + 9 * i + 6 + j)\<rparr>
      else \<lparr>first = 0, count = 0, speed = 0\<rparr>)"
  using assms by (simp add: load_cycles_def zero_cycles_eq add.assoc) (simp add: no_cycle_def)

lemma loaded_names:
  assumes "start \<le> length p"
  shows "clear_names c n (load_names t (PALNAMESIZE c) 0 (drop start p) n) =
     (\<lambda>i j. if j < PALNAMESIZE c \<and> i < n then p ! (start + i * PALNAMESIZE c + j)
            else if j < PALNAMESIZE c \<and> i < MAXLEVELS c then 0
            else t i j)"
  using assms by (auto simp: clear_names_eq load_names_def fun_eq_iff add.assoc)

subsection \<open>When the routine returns 0\<close>

lemma read_names_len:
  "read_names c k n i e = Inr e2 \<Longrightarrow> PALNAMESIZE c * (n - i) \<le> length (packfile e)"
proof (induction c k n i e rule: read_names.induct)
  case (1 c k n i e)
  note [simp] = read_names.simps [of c k n i e]
  show ?case
  proof (cases "i < n")
    case False
    then show ?thesis by simp
  next
    case lt: True
    obtain v e' where rd: "pfread (PALNAMESIZE c) e = (v, e')" by (cases "pfread (PALNAMESIZE c) e")
    show ?thesis
    proof (cases v)
      case None
      with "1.prems" lt rd show ?thesis by simp
    next
      case (Some buf)
      let ?e = "if k then e'\<lparr>palnames := memcpy_row (palnames e') i buf (PALNAMESIZE c)\<rparr> else e'"
      from "1.prems" lt rd Some have "read_names c k n (Suc i) ?e = Inr e2" by simp
      from "1.IH" [OF lt rd [symmetric] Some this]
      have "PALNAMESIZE c * (n - Suc i) \<le> length (packfile e')" by (simp split: if_splits)
      moreover from pfread_Some [OF rd [unfolded Some]]
      have "length (packfile e') = length (packfile e) - PALNAMESIZE c"
        "PALNAMESIZE c \<le> length (packfile e)" by simp_all
      moreover from lt obtain d where "n - i = Suc d" "n - Suc i = d"
        by (cases "n - i") simp_all
      ultimately show ?thesis by simp
    qed
  qed
qed

lemma read_slots_len:
  "read_slots put i 0 tm e = Inr x \<Longrightarrow> 3 \<le> length (packfile e)"
  by (simp add: read_slots.simps [of put i 0] read_slots.simps [of put i "Suc 0"]
        read_slots.simps [of put i "Suc (Suc 0)"] p_getc_def logged_def
      split: if_splits)

lemma read_cycles_len:
  "d = n - i \<Longrightarrow> read_cycles n i tm e = Inr x \<Longrightarrow> 9 * d \<le> length (packfile e)"
proof (induction d arbitrary: i tm e)
  case 0
  then show ?case by simp
next
  case (Suc d)
  then have lt: "i < n" by simp
  obtain tm' e' where x: "x = (tm', e')" by (cases x)
  from read_cycles_Inr [OF Suc.prems(2) [unfolded x]] lt have i: "i < 256" by simp
  note unf = read_cycles.simps [of n i tm e]
  let ?p = "packfile e"
  have a: "3 \<le> length ?p"
    using Suc.prems(2) lt
    by (auto simp: unf split: sum.splits dest: read_slots_len)
  let ?e1 = "e\<lparr>packfile := drop 3 ?p, calls := calls e @ replicate 3 P_getc\<rparr>"
  let ?tm1 = "tm\<lparr>cycles := (\<lambda>a b. if a = i \<and> b < 3 then (cycles tm a b)\<lparr>first := ?p ! b\<rparr>
                                else cycles tm a b)\<rparr>"
  have s1: "read_slots (\<lambda>v p. p\<lparr>first := v\<rparr>) i 0 tm e = Inr (?tm1, ?e1)"
    using i a by (intro read_slots_ok) simp_all
  have b: "3 \<le> length (packfile ?e1)"
    using Suc.prems(2) lt
    by (auto simp only: unf s1 if_True sum.case prod.case split: sum.splits dest: read_slots_len)
  let ?e2 = "?e1\<lparr>packfile := drop 3 (packfile ?e1), calls := calls ?e1 @ replicate 3 P_getc\<rparr>"
  let ?tm2 = "?tm1\<lparr>cycles := (\<lambda>a b. if a = i \<and> b < 3
                                then (cycles ?tm1 a b)\<lparr>count := packfile ?e1 ! b\<rparr>
                                else cycles ?tm1 a b)\<rparr>"
  have s2: "read_slots (\<lambda>v p. p\<lparr>count := v\<rparr>) i 0 ?tm1 ?e1 = Inr (?tm2, ?e2)"
    using i b by (intro read_slots_ok) simp_all
  have c: "3 \<le> length (packfile ?e2)"
    using Suc.prems(2) lt
    by (auto simp only: unf s1 s2 if_True sum.case prod.case split: sum.splits dest: read_slots_len)
  from a b c have len: "9 \<le> length ?p" by simp
  from Suc.prems(2) read_cycles_step [OF lt i len]
  have "read_cycles n (Suc i) (fst (cycles_read i 1 tm e)) (snd (cycles_read i 1 tm e)) = Inr x"
    by simp
  moreover from Suc.prems(1) have "d = n - Suc i" by simp
  ultimately have "9 * d \<le> length (packfile (snd (cycles_read i 1 tm e)))"
    by (rule Suc.IH [rotated])
  with len show ?case by (simp add: cycles_read_def)
qed

lemma colors_Inr_len:
  assumes "read_color_tables c v b sv k e = Inr e2"
  shows "48 * color_records c v b sv \<le> length (packfile e)"
proof -
  from assms obtain e1 where 1: "read_colors k 0 (oldpdTOTAL c) 0 e = Inr e1"
    by (auto simp: read_color_tables_def split: sum.splits)
  then have a: "48 * oldpdTOTAL c \<le> length (packfile e)"
    and e1: "e1 = colors_read k 0 (oldpdTOTAL c) e"
    by (simp_all add: read_colors_Inr_iff)
  show ?thesis
  proof (cases "legacy_colors v b")
    case True
    with a show ?thesis by (simp add: color_records_def)
  next
    case False
    with assms 1 obtain e3 where
      2: "read_colors k (oldpdTOTAL c) (newpdTOTAL c - oldpdTOTAL c) 0 e1 = Inr e3"
      by (auto simp: read_color_tables_def extended_color_branch_def split: sum.splits)
    then have b: "48 * (newpdTOTAL c - oldpdTOTAL c) \<le> length (packfile e1)"
      and e3: "e3 = colors_read k (oldpdTOTAL c) (newpdTOTAL c - oldpdTOTAL c) e1"
      by (simp_all add: read_colors_Inr_iff)
    show ?thesis
    proof (cases "sv < 4")
      case True
      with False a b e1 show ?thesis by (simp add: color_records_def)
    next
      case ge: False
      with assms 1 2 False have
        "read_colors k (newpdTOTAL c) (newerpdTOTAL c - newpdTOTAL c) 0 e3 = Inr e2"
        by (simp add: read_color_tables_def extended_color_branch_def)
      then have "48 * (newerpdTOTAL c - newpdTOTAL c) \<le> length (packfile e3)"
        by (simp add: read_colors_Inr_iff)
      with False ge a b e1 e3 show ?thesis by (simp add: color_records_def)
    qed
  qed
qed

lemma names_Inr_len:
  assumes "read_palnames c v b sv k e = Inr e3"
  shows "names_size c v b sv \<le> length (packfile e)"
proof (cases "legacy_names v b")
  case True
  then show ?thesis by (simp add: names_size_def)
next
  case False
  with assms obtain e1 where "read_names c k (names_count c sv) 0 e = Inr e1"
    by (auto simp: read_palnames_def read_names_branch_def names_count_def Let_def
             split: sum.splits)
  from read_names_len [OF this] False show ?thesis by (simp add: names_size_def)
qed

lemma cycles_Inr_len:
  assumes "read_palcycles v k tm e = Inr e4" and "v > 0x192"
  shows "cycles_count (packfile e) \<le> 256 \<and>
         2 + 9 * cycles_count (packfile e) \<le> length (packfile e)"
proof -
  obtain w e1 where rd: "p_igetw e = (w, e1)" by (cases "p_igetw e")
  from assms rd obtain n where w: "w = Some n"
    by (cases w) (simp_all add: read_palcycles_def)
  from rd w have len: "2 \<le> length (packfile e)"
    and n: "n = word_cat (packfile e ! 1) (packfile e ! 0)"
    and e1: "packfile e1 = drop 2 (packfile e)"
    by (auto simp: p_igetw_def split: if_splits)
  let ?tm0 = "tm\<lparr>cycles := zero_cycles (cycles tm)\<rparr>"
  from assms rd w obtain tm' e2 where
    cy: "read_cycles (unat n) 0 ?tm0 e1 = Inr (tm', e2)"
    by (auto simp: read_palcycles_def Let_def split: sum.splits)
  from read_cycles_Inr [OF cy] have "unat n \<le> 256" by auto
  moreover from read_cycles_len [OF _ cy] have "9 * unat n \<le> length (packfile e1)" by simp
  ultimately show ?thesis using len n e1 by (simp add: cycles_count_def)
qed

text \<open>
  The calls that return \<^verbatim>\<open>0\<close> are those whose stream holds the whole section, with a
  cycle count of at most 256 when the version has cycles.
\<close>

lemma decode_ok_iff:
  "returns qe_OK (readcolordata c e v b k) \<longleftrightarrow>
     section_offset c v b (packfile e) \<le> length (packfile e) \<and>
     (v > 0x192 \<longrightarrow>
        cycles_count (drop (section_offset c v b (packfile e)) (packfile e)) \<le> 256 \<and>
        section_offset c v b (packfile e) + 2 +
          9 * cycles_count (drop (section_offset c v b (packfile e)) (packfile e))
        \<le> length (packfile e))"
  (is "?L \<longleftrightarrow> ?R")
proof
  assume ?R
  then show ?L by (simp add: decode_ok)
next
  assume ok: ?L
  obtain r where r: "readcolordata c e v b k = r" by simp
  from r show ?R
  proof (cases rule: readcolordata_cases)
    case header
    with ok r show ?thesis by (auto dest!: header_Inl dest: ok_not_invalid)
  next
    case (colors sv e1)
    with ok r show ?thesis by (auto dest!: colors_Inl dest: ok_not_invalid)
  next
    case (names sv e1 e2)
    with ok r show ?thesis by (auto dest!: names_Inl dest: ok_not_invalid)
  next
    case (cycles sv e1 e2 e3)
    with ok r show ?thesis by (auto dest!: cycles_Inl)
  next
    case (ok sv e1 e2 e3 e4)
    from header_Inr [OF ok(1)] have h: "header_size v \<le> length (packfile e)"
      by (simp add: header_size_def split: if_splits)
    from ok(1) header_ok [OF h] have sv: "sv = section_version v (packfile e)"
      and e1: "e1 = header_done v e" by simp_all
    from colors_Inr_len [OF ok(2)]
    have c: "48 * color_records c v b sv \<le> length (packfile e1)" .
    from ok(2) colors_ok [OF c] have e2: "e2 = colors_done c v b sv k e1" by simp
    from names_Inr_len [OF ok(3)]
    have n: "names_size c v b sv \<le> length (packfile e2)" .
    from ok(3) names_ok [OF n] have e3: "e3 = names_done c v b sv k e2" by simp
    have off: "section_offset c v b (packfile e) \<le> length (packfile e)"
      using h c n by (simp add: section_offset_def Let_def sv e1 e2)
    have bc: "e3 = before_cycles c v b k e"
      by (simp add: before_cycles_def Let_def sv e1 e2 e3)
    show ?thesis
    proof (cases "v > 0x192")
      case False
      with off show ?thesis by simp
    next
      case True
      from cycles_Inr_len [OF ok(4) True] off True show ?thesis
        by (auto simp: bc)
    qed
  qed
qed

section \<open>The claims\<close>

subsection \<open>A failed read\<close>

text \<open>
  With \<^verbatim>\<open>keepdata\<close> true a failed call does not leave the colour records as they were. The
  stream holds a header and one colour record of ones; the second read of a record fails,
  the routine returns \<^verbatim>\<open>qe_invalid\<close>, and the first byte of the colour table, 9 before the
  call, is 1 after it: line 65 has stored the first record.
\<close>

theorem failed_read_keeps_records:
  "returns qe_invalid (readcolordata zc_defs (sample_env (replicate 56 1)) 0x193 0 True) \<and>
   colordata (sample_env (replicate 56 1)) 0 = 9 \<and>
   colordata (final (readcolordata zc_defs (sample_env (replicate 56 1)) 0x193 0 True)) 0 = 1"
proof -
  let ?e = "sample_env (replicate 56 1)"
  have h: "read_section_header 0x193 ?e = Inr (section_version 0x193 (packfile ?e), header_done 0x193 ?e)"
    by (rule header_ok) (simp add: header_size_def)
  have "read_colors True 0 240 0 (header_done 0x193 ?e) =
      Inl (Return qe_invalid (logged (Pfread 48) (colors_read True 0 1 (header_done 0x193 ?e))))"
    using read_colors_short [of 1 240 0 "header_done 0x193 ?e" True 0]
    by (simp add: header_size_def)
  then have "readcolordata zc_defs ?e 0x193 0 True =
      Return qe_invalid (logged (Pfread 48) (colors_read True 0 1 (header_done 0x193 ?e)))"
    by (simp add: readcolordata_def h read_color_tables_def)
  then show ?thesis by (simp add: memcpy_buf_def header_size_def)
qed

text \<open>
  Claim C1, as amended. When \<^verbatim>\<open>readcolordata\<close> returns \<^verbatim>\<open>qe_invalid\<close>, the aggregate \<^verbatim>\<open>*Misc\<close>
  holds what it held before the call, whatever \<^verbatim>\<open>keepdata\<close> is; the colour records and
  the palette names hold what they held before the call when \<^verbatim>\<open>keepdata\<close> is false. With
  \<^verbatim>\<open>keepdata\<close> true the records and names read before the failing read are already stored.
\<close>

theorem invalid_keeps_Misc:
  assumes "returns qe_invalid (readcolordata c e version build keepdata)"
  shows "Misc (final (readcolordata c e version build keepdata)) = Misc e \<and>
         (\<not> keepdata \<longrightarrow>
            colordata (final (readcolordata c e version build keepdata)) = colordata e \<and>
            palnames (final (readcolordata c e version build keepdata)) = palnames e)"
  using invalid_frame [OF refl assms] .

text \<open>
  The theorem at a concrete call, with \<^verbatim>\<open>keepdata\<close> false.
\<close>

theorem invalid_keeps_Misc_witness:
  "returns qe_invalid (readcolordata zc_defs (sample_env (replicate 56 1)) 0x193 0 False) \<and>
   Misc (final (readcolordata zc_defs (sample_env (replicate 56 1)) 0x193 0 False)) =
     Misc (sample_env (replicate 56 1)) \<and>
   colordata (final (readcolordata zc_defs (sample_env (replicate 56 1)) 0x193 0 False)) =
     colordata (sample_env (replicate 56 1)) \<and>
   palnames (final (readcolordata zc_defs (sample_env (replicate 56 1)) 0x193 0 False)) =
     palnames (sample_env (replicate 56 1))"
proof -
  let ?e = "sample_env (replicate 56 1)"
  have h: "read_section_header 0x193 ?e = Inr (section_version 0x193 (packfile ?e), header_done 0x193 ?e)"
    by (rule header_ok) (simp add: header_size_def)
  have "read_colors False 0 240 0 (header_done 0x193 ?e) =
      Inl (Return qe_invalid (logged (Pfread 48) (colors_read False 0 1 (header_done 0x193 ?e))))"
    using read_colors_short [of 1 240 0 "header_done 0x193 ?e" False 0]
    by (simp add: header_size_def)
  then have "readcolordata zc_defs ?e 0x193 0 False =
      Return qe_invalid (logged (Pfread 48) (colors_read False 0 1 (header_done 0x193 ?e)))"
    by (simp add: readcolordata_def h read_color_tables_def)
  then have r: "returns qe_invalid (readcolordata zc_defs ?e 0x193 0 False)" by simp
  from invalid_keeps_Misc [OF r] r show ?thesis by simp
qed

subsection \<open>A call that keeps nothing\<close>

text \<open>
  Claim C2. A call with \<^verbatim>\<open>keepdata\<close> false that returns, with either status, leaves the
  colour records, the palette names and \<^verbatim>\<open>*Misc\<close> as they were.
\<close>

theorem dry_run_keeps_tables:
  assumes "returned (readcolordata c e version build False)"
  shows "colordata (final (readcolordata c e version build False)) = colordata e \<and>
         palnames (final (readcolordata c e version build False)) = palnames e \<and>
         Misc (final (readcolordata c e version build False)) = Misc e"
  using dry_run_frame [OF refl] .

text \<open>
  The theorem at a concrete call.
\<close>

theorem dry_run_keeps_tables_witness:
  "returned (readcolordata zc_defs (sample_env sample_section) 0x193 0 False) \<and>
   colordata (final (readcolordata zc_defs (sample_env sample_section) 0x193 0 False)) =
     colordata (sample_env sample_section) \<and>
   palnames (final (readcolordata zc_defs (sample_env sample_section) 0x193 0 False)) =
     palnames (sample_env sample_section) \<and>
   Misc (final (readcolordata zc_defs (sample_env sample_section) 0x193 0 False)) =
     Misc (sample_env sample_section)"
proof -
  have r: "returned (readcolordata zc_defs (sample_env sample_section) 0x193 0 False)"
    by (simp add: sample_decode)
  from dry_run_keeps_tables [OF r] r show ?thesis by simp
qed

subsection \<open>Versions up to 0x192\<close>

text \<open>
  At version \<^verbatim>\<open>0x192\<close> and build 76 the names are not reset: the routine reads 3373 colour
  records and 256 names, never calls \<^verbatim>\<open>init_palnames\<close>, and the first byte of the first
  name is the 1 of the stream, where \<^verbatim>\<open>init_palnames\<close> would have left 0.
\<close>

theorem names_read_at_build_76:
  "returns qe_OK (readcolordata zc_defs (sample_env (replicate 166256 1)) 0x192 76 True) \<and>
   issued (sample_env (replicate 166256 1))
     (readcolordata zc_defs (sample_env (replicate 166256 1)) 0x192 76 True) =
     replicate 3373 (Pfread 48) @ replicate 256 (Pfread 17) \<and>
   Init_palnames \<notin> set (issued (sample_env (replicate 166256 1))
     (readcolordata zc_defs (sample_env (replicate 166256 1)) 0x192 76 True)) \<and>
   palnames (final (readcolordata zc_defs (sample_env (replicate 166256 1)) 0x192 76 True)) 0 0 = 1 \<and>
   init_palnames zc_defs (palnames (sample_env (replicate 166256 1))) 0 0 = 0"
proof -
  have old: "\<not> (0x192 :: word16) > 0x192" by simp
  have n: "\<not> legacy_names 0x192 76" "\<not> legacy_colors 0x192 76"
    by (simp_all add: legacy_names_def legacy_colors_def)
  have c: "color_records zc_defs 0x192 76 0 = 3373" "names_count zc_defs 0 = 256"
    "names_size zc_defs 0x192 76 0 = 4352"
    using n by (simp_all add: color_records_def names_count_def names_size_def)
  have "readcolordata zc_defs (sample_env (replicate 166256 1)) 0x192 76 True =
      Return qe_OK (before_cycles zc_defs 0x192 76 True (sample_env (replicate 166256 1)))"
    by (rule old_decode_ok [OF old]) (simp add: c)
  then show ?thesis
    using n
    by (simp add: issued_Return before_cycles_calls before_cycles_palnames section_version_def
          header_size_def c clear_names_eq load_names_def)
qed

text \<open>
  Claim C3, as amended. For a version up to \<^verbatim>\<open>0x192\<close> the routine calls neither the word
  reader nor the long reader nor the byte reader: it reads no section header and no colour
  cycles. When moreover the version is below \<^verbatim>\<open>0x192\<close>, or is \<^verbatim>\<open>0x192\<close> with a build
  below 76, \<^verbatim>\<open>keepdata\<close> is true and the stream holds the colour records, the routine
  returns \<^verbatim>\<open>0\<close>, the palette names are those \<^verbatim>\<open>init_palnames\<close> leaves, and the calls are
  the reads of the colour records followed by the one call of \<^verbatim>\<open>init_palnames\<close>. (At
  version \<^verbatim>\<open>0x192\<close> with a build from 76 on the names are read from the stream, and with
  \<^verbatim>\<open>keepdata\<close> false the name table is left as it is.)
\<close>

theorem old_versions_skip_header_and_cycles:
  assumes "version \<le> 0x192"
  shows "P_igetw \<notin> set (issued e (readcolordata c e version build keepdata)) \<and>
         P_igetl \<notin> set (issued e (readcolordata c e version build keepdata)) \<and>
         P_getc \<notin> set (issued e (readcolordata c e version build keepdata)) \<and>
         (legacy_names version build \<and> keepdata \<and>
          48 * color_records c version build 0 \<le> length (packfile e) \<longrightarrow>
            returns qe_OK (readcolordata c e version build keepdata) \<and>
            palnames (final (readcolordata c e version build keepdata)) =
              init_palnames c (palnames e) \<and>
            issued e (readcolordata c e version build keepdata) =
              replicate (color_records c version build 0) (Pfread 48) @ [Init_palnames])"
proof -
  from assms have old: "\<not> version > 0x192" by (simp add: not_less)
  have "set (issued e (readcolordata c e version build keepdata))
      \<subseteq> {Pfread 48, Pfread (PALNAMESIZE c), Init_palnames}"
    by (rule old_version_calls [OF refl assms])
  then have 1: "P_igetw \<notin> set (issued e (readcolordata c e version build keepdata))"
    "P_igetl \<notin> set (issued e (readcolordata c e version build keepdata))"
    "P_getc \<notin> set (issued e (readcolordata c e version build keepdata))"
    by auto
  have 2: "returns qe_OK (readcolordata c e version build keepdata) \<and>
      palnames (final (readcolordata c e version build keepdata)) = init_palnames c (palnames e) \<and>
      issued e (readcolordata c e version build keepdata) =
        replicate (color_records c version build 0) (Pfread 48) @ [Init_palnames]"
    if "legacy_names version build" "keepdata"
      "48 * color_records c version build 0 \<le> length (packfile e)"
  proof -
    from that have "readcolordata c e version build keepdata =
        Return qe_OK (before_cycles c version build True e)"
      by (simp add: old_decode_ok [OF old] names_size_def)
    with that(1) old show ?thesis
      by (simp add: issued_Return before_cycles_calls before_cycles_palnames section_version_def)
  qed
  from 1 2 show ?thesis by blast
qed

text \<open>
  The theorem at a concrete call.
\<close>

theorem old_versions_skip_header_and_cycles_witness:
  "(0x190 :: word16) \<le> 0x192 \<and> legacy_names 0x190 0 \<and>
   48 * color_records zc_defs 0x190 0 0 \<le> length (packfile (sample_env (replicate 11520 1))) \<and>
   P_igetw \<notin> set (issued (sample_env (replicate 11520 1))
                      (readcolordata zc_defs (sample_env (replicate 11520 1)) 0x190 0 True)) \<and>
   P_igetl \<notin> set (issued (sample_env (replicate 11520 1))
                      (readcolordata zc_defs (sample_env (replicate 11520 1)) 0x190 0 True)) \<and>
   P_getc \<notin> set (issued (sample_env (replicate 11520 1))
                      (readcolordata zc_defs (sample_env (replicate 11520 1)) 0x190 0 True)) \<and>
   returns qe_OK (readcolordata zc_defs (sample_env (replicate 11520 1)) 0x190 0 True) \<and>
   palnames (final (readcolordata zc_defs (sample_env (replicate 11520 1)) 0x190 0 True)) =
     init_palnames zc_defs (palnames (sample_env (replicate 11520 1))) \<and>
   issued (sample_env (replicate 11520 1))
     (readcolordata zc_defs (sample_env (replicate 11520 1)) 0x190 0 True) =
     replicate 240 (Pfread 48) @ [Init_palnames]"
proof -
  have a: "(0x190 :: word16) \<le> 0x192" by simp
  have b: "legacy_names 0x190 0" by (simp add: legacy_names_def)
  have c: "color_records zc_defs 0x190 0 0 = 240"
    by (simp add: color_records_def legacy_colors_def)
  from old_versions_skip_header_and_cycles
    [OF a, of "sample_env (replicate 11520 1)" zc_defs 0 True] a b c
  show ?thesis by simp
qed

subsection \<open>Versions above 0x192: the header\<close>

text \<open>
  Claim C4. For a version above \<^verbatim>\<open>0x192\<close> the calls start with the three reads of the
  section header (a word, a word, a long), as far as the routine gets: its calls are a
  prefix of the three, or the three are a prefix of its calls. When the stream holds the
  eight bytes of the header, the three reads are the first three calls of the routine
  whatever follows, and they leave the first word as the sub-version and the stream eight
  bytes further. When the stream holds fewer than eight bytes, so that one of the three
  reads fails, the routine stops at the failing read (the first below 2 bytes, the second
  below 4, the third below 8), it returns \<^verbatim>\<open>qe_invalid\<close>, the three tables hold what they
  held, and no colour record has been read.
\<close>

theorem header_is_read_first:
  assumes "version > 0x192"
  shows "(prefix (issued e (readcolordata c e version build keepdata)) [P_igetw, P_igetw, P_igetl] \<or>
          prefix [P_igetw, P_igetw, P_igetl] (issued e (readcolordata c e version build keepdata))) \<and>
         issued e (readcolordata c e version build keepdata) \<noteq> [] \<and>
         (8 \<le> length (packfile e) \<longrightarrow>
            prefix [P_igetw, P_igetw, P_igetl] (issued e (readcolordata c e version build keepdata)) \<and>
            read_section_header version e =
              Inr (word_cat (packfile e ! 1) (packfile e ! 0),
                   e\<lparr>packfile := drop 8 (packfile e),
                     calls := calls e @ [P_igetw, P_igetw, P_igetl]\<rparr>)) \<and>
         (length (packfile e) < 8 \<longrightarrow>
            returns qe_invalid (readcolordata c e version build keepdata) \<and>
            colordata (final (readcolordata c e version build keepdata)) = colordata e \<and>
            palnames (final (readcolordata c e version build keepdata)) = palnames e \<and>
            Misc (final (readcolordata c e version build keepdata)) = Misc e \<and>
            Pfread 48 \<notin> set (issued e (readcolordata c e version build keepdata)) \<and>
            issued e (readcolordata c e version build keepdata) =
              take (if length (packfile e) < 2 then 1
                    else if length (packfile e) < 4 then 2 else 3)
                [P_igetw, P_igetw, P_igetl])"
proof (cases "length (packfile e) < 8")
  case True
  let ?m = "if length (packfile e) < 2 then 1 else if length (packfile e) < 4 then 2 else (3::nat)"
  from header_calls_first [where c = c and e = e and b = build and k = keepdata, OF refl assms] True
  have *: "returns qe_invalid (readcolordata c e version build keepdata)"
    "colordata (final (readcolordata c e version build keepdata)) = colordata e"
    "palnames (final (readcolordata c e version build keepdata)) = palnames e"
    "Misc (final (readcolordata c e version build keepdata)) = Misc e"
    "issued e (readcolordata c e version build keepdata) = take ?m [P_igetw, P_igetw, P_igetl]"
    by simp_all
  have "prefix (take ?m [P_igetw, P_igetw, P_igetl]) [P_igetw, P_igetw, P_igetl]"
    by (rule take_is_prefix)
  moreover have "take ?m [P_igetw, P_igetw, P_igetl] \<noteq> []" by simp
  moreover have "Pfread 48 \<notin> set (take ?m [P_igetw, P_igetw, P_igetl])"
    by (auto dest: in_set_takeD)
  ultimately show ?thesis using * True by simp
next
  case False
  from header_calls_first [where c = c and e = e and b = build and k = keepdata, OF refl assms] False
  obtain xs where "issued e (readcolordata c e version build keepdata) =
      [P_igetw, P_igetw, P_igetl] @ xs"
    by auto
  moreover from False assms have "read_section_header version e =
      Inr (word_cat (packfile e ! 1) (packfile e ! 0),
           e\<lparr>packfile := drop 8 (packfile e), calls := calls e @ [P_igetw, P_igetw, P_igetl]\<rparr>)"
    using header_ok [of version e]
    by (simp add: header_size_def section_version_def header_done_def)
  ultimately show ?thesis using False by simp
qed

text \<open>
  The theorem at two concrete calls: a stream of five bytes, where the third read fails, and
  the whole section \<open>sample_section\<close>, where the reads of the colour records follow the
  header.
\<close>

theorem header_is_read_first_witness:
  "(0x193 :: word16) > 0x192 \<and> length (packfile (sample_env (replicate 5 1))) < 8 \<and>
   issued (sample_env (replicate 5 1))
     (readcolordata zc_defs (sample_env (replicate 5 1)) 0x193 0 True) =
     [P_igetw, P_igetw, P_igetl] \<and>
   returns qe_invalid (readcolordata zc_defs (sample_env (replicate 5 1)) 0x193 0 True) \<and>
   colordata (final (readcolordata zc_defs (sample_env (replicate 5 1)) 0x193 0 True)) =
     colordata (sample_env (replicate 5 1)) \<and>
   palnames (final (readcolordata zc_defs (sample_env (replicate 5 1)) 0x193 0 True)) =
     palnames (sample_env (replicate 5 1)) \<and>
   Misc (final (readcolordata zc_defs (sample_env (replicate 5 1)) 0x193 0 True)) =
     Misc (sample_env (replicate 5 1)) \<and>
   Pfread 48 \<notin> set (issued (sample_env (replicate 5 1))
                       (readcolordata zc_defs (sample_env (replicate 5 1)) 0x193 0 True)) \<and>
   8 \<le> length (packfile (sample_env sample_section)) \<and>
   prefix [P_igetw, P_igetw, P_igetl]
     (issued (sample_env sample_section)
        (readcolordata zc_defs (sample_env sample_section) 0x193 0 True)) \<and>
   take 4 (issued (sample_env sample_section)
        (readcolordata zc_defs (sample_env sample_section) 0x193 0 True)) =
     [P_igetw, P_igetw, P_igetl, Pfread 48]"
proof -
  have a: "(0x193 :: word16) > 0x192" by simp
  have b: "length (packfile (sample_env (replicate 5 1))) < 8" by simp
  have c: "8 \<le> length (packfile (sample_env sample_section))"
    by (simp add: sample_section_simps)
  have d: "take 4 (issued (sample_env sample_section)
        (readcolordata zc_defs (sample_env sample_section) 0x193 0 True)) =
      [P_igetw, P_igetw, P_igetl, Pfread 48]"
    by (simp add: sample_decode issued_Return before_cycles_calls sample_section_simps
          color_records_def legacy_colors_def legacy_names_def names_count_def)
  from header_is_read_first [where e = "sample_env (replicate 5 1)" and c = zc_defs
      and build = 0 and keepdata = True, OF a]
    header_is_read_first [where e = "sample_env sample_section" and c = zc_defs
      and build = 0 and keepdata = True, OF a]
    a b c d
  show ?thesis by simp
qed

subsection \<open>The build thresholds\<close>


subsection \<open>The legacy migration\<close>

text \<open>
  The block does not go to the new sprite offset \<^verbatim>\<open>newpoSPRITE\<close>: line 73 copies it to
  \<^verbatim>\<open>newerpoSPRITE\<close>, and line 74 zero-fills from \<^verbatim>\<open>oldpoSPRITE\<close> up to \<^verbatim>\<open>newerpoSPRITE\<close>.
  On a stream of 210 records of fives and 30 sprite records of sevens, with \<^verbatim>\<open>keepdata\<close> true,
  the byte at \<^verbatim>\<open>newpoSPRITE\<close> is 0, as is the byte 30 records further, and the sevens are
  at \<^verbatim>\<open>newerpoSPRITE\<close>. And with \<^verbatim>\<open>keepdata\<close> false the migration is not done at all (line
  71): the bytes at the old and at the newer sprite offset are the 9 they were.
\<close>

theorem migration_goes_to_newer_offset:
  "legacy_colors 0x190 0 \<and>
   newpoSPRITE zc_defs = 3343 \<and> newerpoSPRITE zc_defs = 6671 \<and>
   returns qe_OK
     (readcolordata zc_defs (sample_env (replicate 10080 5 @ replicate 1440 7)) 0x190 0 True) \<and>
   colordata (sample_env (replicate 10080 5 @ replicate 1440 7)) (newpoSPRITE zc_defs * 48) = 9 \<and>
   colordata (final
     (readcolordata zc_defs (sample_env (replicate 10080 5 @ replicate 1440 7)) 0x190 0 True))
     (newpoSPRITE zc_defs * 48) = 0 \<and>
   colordata (final
     (readcolordata zc_defs (sample_env (replicate 10080 5 @ replicate 1440 7)) 0x190 0 True))
     ((newpoSPRITE zc_defs + 30) * 48) = 0 \<and>
   colordata (final
     (readcolordata zc_defs (sample_env (replicate 10080 5 @ replicate 1440 7)) 0x190 0 True))
     (newerpoSPRITE zc_defs * 48) = 7 \<and>
   returns qe_OK
     (readcolordata zc_defs (sample_env (replicate 10080 5 @ replicate 1440 7)) 0x190 0 False) \<and>
   colordata (final
     (readcolordata zc_defs (sample_env (replicate 10080 5 @ replicate 1440 7)) 0x190 0 False))
     (oldpoSPRITE zc_defs * 48) = 9 \<and>
   colordata (final
     (readcolordata zc_defs (sample_env (replicate 10080 5 @ replicate 1440 7)) 0x190 0 False))
     (newerpoSPRITE zc_defs * 48) = 9"
proof -
  have a: "legacy_colors 0x190 0" by (simp add: legacy_colors_def)
  have b: "48 * oldpdTOTAL zc_defs
      \<le> length (packfile (sample_env (replicate 10080 5 @ replicate 1440 7)))"
    by simp
  from legacy_decode [OF a b, of False] legacy_decode [OF a b, of True] a
  show ?thesis by (simp add: migrated_def memcpy_buf_def nth_append)
qed

text \<open>
  Claim C6, as amended. Let the version be below \<^verbatim>\<open>0x192\<close>, or \<^verbatim>\<open>0x192\<close> with a build below
  73, and let the stream hold the \<^verbatim>\<open>oldpdTOTAL\<close> base records. Then the routine returns
  \<^verbatim>\<open>0\<close>, it has read the base records and nothing more from the stream, and with
  \<^verbatim>\<open>keepdata\<close> true the colour table is the table of the base records migrated: the bytes
  from the old sprite offset \<^verbatim>\<open>oldpoSPRITE\<close> up to the newer sprite offset
  \<^verbatim>\<open>newerpoSPRITE\<close> are zero, the block of 30 records is at \<^verbatim>\<open>newerpoSPRITE\<close>, but its
  records 8, 9 and 10 are one slot higher (record 11 is overwritten) and slot 8 is zero.
  With \<^verbatim>\<open>keepdata\<close> false the colour table is left as it was. (The copy of line 73 takes
  the bytes of the old block as they are before the call, which is what C defines when the
  two blocks do not overlap.)
\<close>

theorem legacy_migration:
  assumes "legacy_colors version build"
    and "48 * oldpdTOTAL c \<le> length (packfile e)"
  shows "returns qe_OK (readcolordata c e version build keepdata) \<and>
         packfile (final (readcolordata c e version build keepdata)) =
           drop (48 * oldpdTOTAL c) (packfile e) \<and>
         issued e (readcolordata c e version build keepdata) =
           replicate (oldpdTOTAL c) (Pfread 48) @ (if keepdata then [Init_palnames] else []) \<and>
         colordata (final (readcolordata c e version build keepdata)) =
           (if keepdata
            then migrated c (memcpy_buf (colordata e) 0 (packfile e) (48 * oldpdTOTAL c))
            else colordata e)"
  using legacy_decode [OF assms(1,2), of keepdata]
  by (simp add: issued_Return)

text \<open>
  The theorem at a concrete call: 210 records of fives and 30 sprite records of sevens. The
  sevens are at the newer sprite offset, the old offset and slot 8 are zero.
\<close>

theorem legacy_migration_witness:
  "legacy_colors 0x190 0 \<and>
   48 * oldpdTOTAL zc_defs \<le> length (packfile (sample_env (replicate 10080 5 @ replicate 1440 7))) \<and>
   returns qe_OK
     (readcolordata zc_defs (sample_env (replicate 10080 5 @ replicate 1440 7)) 0x190 0 True) \<and>
   packfile (final
     (readcolordata zc_defs (sample_env (replicate 10080 5 @ replicate 1440 7)) 0x190 0 True)) = [] \<and>
   issued (sample_env (replicate 10080 5 @ replicate 1440 7))
     (readcolordata zc_defs (sample_env (replicate 10080 5 @ replicate 1440 7)) 0x190 0 True) =
     replicate 240 (Pfread 48) @ [Init_palnames] \<and>
   colordata (final
     (readcolordata zc_defs (sample_env (replicate 10080 5 @ replicate 1440 7)) 0x190 0 True)) 0 = 5 \<and>
   colordata (final
     (readcolordata zc_defs (sample_env (replicate 10080 5 @ replicate 1440 7)) 0x190 0 True))
     (210 * 48) = 0 \<and>
   colordata (final
     (readcolordata zc_defs (sample_env (replicate 10080 5 @ replicate 1440 7)) 0x190 0 True))
     (6671 * 48) = 7 \<and>
   colordata (final
     (readcolordata zc_defs (sample_env (replicate 10080 5 @ replicate 1440 7)) 0x190 0 True))
     (6679 * 48) = 0 \<and>
   colordata (final
     (readcolordata zc_defs (sample_env (replicate 10080 5 @ replicate 1440 7)) 0x190 0 True))
     (6680 * 48) = 7 \<and>
   colordata (final
     (readcolordata zc_defs (sample_env (replicate 10080 5 @ replicate 1440 7)) 0x190 0 True))
     (6701 * 48) = 9"
proof -
  have a: "legacy_colors 0x190 0" by (simp add: legacy_colors_def)
  have b: "48 * oldpdTOTAL zc_defs
      \<le> length (packfile (sample_env (replicate 10080 5 @ replicate 1440 7)))"
    by simp
  from legacy_migration [OF a b, where keepdata = True] a b
  show ?thesis by (simp add: migrated_def memcpy_buf_def nth_append)
qed

subsection \<open>The colour cycles\<close>

text \<open>
  Claim C7. Let the version be above \<^verbatim>\<open>0x192\<close>, let the stream hold the header, the colour
  records and the names, \<open>section_offset\<close> bytes in all, and after them a count of at most
  256 and nine bytes for each counted index. Then the routine returns \<^verbatim>\<open>0\<close>; after the
  reads of the header, the colour records and the names it has read one word and then nine
  bytes for each counted index; and with \<^verbatim>\<open>keepdata\<close> true every entry \<^verbatim>\<open>cycles[i][j]\<close> of
  the table of 256 by 3 holds, for a counted index \<open>i\<close>, the byte \<open>j\<close> of the nine as its
  \<^verbatim>\<open>first\<close>, the byte \<open>3 + j\<close> as its \<^verbatim>\<open>count\<close> and the byte \<open>6 + j\<close> as its \<^verbatim>\<open>speed\<close>,
  and is zero for every other index, whatever it held before. With a count of 0 the whole
  table is zero. By \<open>decode_ok_iff\<close> the calls described are all the calls that return
  \<^verbatim>\<open>0\<close> for such a version.
\<close>

theorem cycles_loaded:
  fixes c :: zdefs and e :: "'a env" and version build :: word16 and keepdata :: bool
  defines "p \<equiv> packfile e"
  defines "off \<equiv> section_offset c version build p"
  defines "q \<equiv> drop off p"
  defines "n \<equiv> cycles_count q"
  defines "r \<equiv> readcolordata c e version build keepdata"
  assumes "version > 0x192" and "n \<le> 256" and "off + 2 + 9 * n \<le> length p"
  shows "returns qe_OK r \<and>
         packfile (final r) = drop (2 + 9 * n) q \<and>
         issued e r =
           [P_igetw, P_igetw, P_igetl] @
           replicate (color_records c version build (section_version version p)) (Pfread 48) @
           replicate (names_count c (section_version version p)) (Pfread (PALNAMESIZE c)) @
           P_igetw # replicate (9 * n) P_getc \<and>
         (keepdata \<longrightarrow>
            (\<forall>i<256. \<forall>j<3. cycles (Misc (final r)) i j =
               (if i < n
                then \<lparr>first = q ! (2 + 9 * i + j), count = q ! (2 + 9 * i + 3 + j),
                      speed = q ! (2 + 9 * i + 6 + j)\<rparr>
                else \<lparr>first = 0, count = 0, speed = 0\<rparr>))) \<and>
         (keepdata \<and> n = 0 \<longrightarrow>
            (\<forall>i<256. \<forall>j<3. cycles (Misc (final r)) i j = \<lparr>first = 0, count = 0, speed = 0\<rparr>))"
proof -
  from assms(8) have len: "off \<le> length p" "2 \<le> length q"
    by (simp_all add: q_def)
  have new: "\<not> legacy_names version build"
    using assms(6) by (auto dest: legacy_names_old)
  have r: "r = Return qe_OK (cycles_done version keepdata (Misc e) (before_cycles c version build keepdata e))"
    unfolding r_def using assms(6-8) len(1)
    by (intro decode_ok) (simp_all add: p_def off_def q_def n_def)
  have 1: "returns qe_OK r" by (simp add: r)
  have 2: "packfile (final r) = drop (2 + 9 * n) q"
    using assms(6) by (simp add: r p_def off_def q_def n_def)
  have 3: "issued e r =
      [P_igetw, P_igetw, P_igetl] @
      replicate (color_records c version build (section_version version p)) (Pfread 48) @
      replicate (names_count c (section_version version p)) (Pfread (PALNAMESIZE c)) @
      P_igetw # replicate (9 * n) P_getc"
    using assms(6) new
    by (simp add: r issued_Return before_cycles_calls p_def off_def q_def n_def)
  have 4: "cycles (Misc (final r)) i j =
      (if i < n
       then \<lparr>first = q ! (2 + 9 * i + j), count = q ! (2 + 9 * i + 3 + j),
             speed = q ! (2 + 9 * i + 6 + j)\<rparr>
       else \<lparr>first = 0, count = 0, speed = 0\<rparr>)"
    if "keepdata" "i < 256" "j < 3" for i j
  proof -
    from that(1) assms(6) have "cycles (Misc (final r)) =
        load_cycles (zero_cycles (cycles (Misc e))) 0 (drop 2 q) n"
      by (simp add: r p_def off_def q_def n_def)
    then show ?thesis by (simp only: loaded_cycle [OF that(2,3) len(2)])
  qed
  from 1 2 3 4 show ?thesis by simp
qed

text \<open>
  The theorem at two concrete calls: a section with one cycle index, whose nine bytes are
  10, 11, 12, 20, 21, 22, 30, 31, 32, and a section with none.
\<close>

theorem cycles_loaded_witness:
  "(0x193 :: word16) > 0x192 \<and>
   cycles_count (drop (section_offset zc_defs 0x193 0 (packfile (sample_env sample_section)))
                   (packfile (sample_env sample_section))) = 1 \<and>
   section_offset zc_defs 0x193 0 (packfile (sample_env sample_section)) + 2 + 9 * 1
     \<le> length (packfile (sample_env sample_section)) \<and>
   returns qe_OK (readcolordata zc_defs (sample_env sample_section) 0x193 0 True) \<and>
   packfile (final (readcolordata zc_defs (sample_env sample_section) 0x193 0 True)) = [] \<and>
   issued (sample_env sample_section)
     (readcolordata zc_defs (sample_env sample_section) 0x193 0 True) =
     [P_igetw, P_igetw, P_igetl] @ replicate 3373 (Pfread 48) @ replicate 256 (Pfread 17) @
     P_igetw # replicate 9 P_getc \<and>
   cycles (Misc (final (readcolordata zc_defs (sample_env sample_section) 0x193 0 True))) 0 0 =
     \<lparr>first = 10, count = 20, speed = 30\<rparr> \<and>
   cycles (Misc (final (readcolordata zc_defs (sample_env sample_section) 0x193 0 True))) 0 2 =
     \<lparr>first = 12, count = 22, speed = 32\<rparr> \<and>
   cycles (Misc (final (readcolordata zc_defs (sample_env sample_section) 0x193 0 True))) 1 0 =
     \<lparr>first = 0, count = 0, speed = 0\<rparr> \<and>
   cycles (Misc (final (readcolordata zc_defs (sample_env sample_section) 0x193 0 True))) 255 2 =
     \<lparr>first = 0, count = 0, speed = 0\<rparr> \<and>
   cycles_count (drop (section_offset zc_defs 0x193 0 (packfile (sample_env (replicate 166266 0))))
                   (packfile (sample_env (replicate 166266 0)))) = 0 \<and>
   returns qe_OK (readcolordata zc_defs (sample_env (replicate 166266 0)) 0x193 0 True) \<and>
   cycles (Misc (final (readcolordata zc_defs (sample_env (replicate 166266 0)) 0x193 0 True))) 7 1 =
     \<lparr>first = 0, count = 0, speed = 0\<rparr>"
proof -
  have a: "(0x193 :: word16) > 0x192" by simp
  note s = sample_section_simps
  have z: "section_offset zc_defs 0x193 0 (replicate 166266 0) = 166264"
    "cycles_count (replicate 2 0) = 0"
    "section_version 0x193 (replicate 166266 0) = 0"
    by (simp_all add: section_offset_def section_version_def header_size_def color_records_def
          names_size_def names_count_def legacy_colors_def legacy_names_def cycles_count_def)
  have c: "color_records zc_defs 0x193 0 0 = 3373" "names_count zc_defs 0 = 256"
    by (simp_all add: color_records_def names_count_def legacy_colors_def)
  have 1: "cycles_count (drop (section_offset zc_defs 0x193 0 (packfile (sample_env sample_section)))
      (packfile (sample_env sample_section))) \<le> 256"
    by (simp add: s)
  have 2: "section_offset zc_defs 0x193 0 (packfile (sample_env sample_section)) + 2 +
      9 * cycles_count (drop (section_offset zc_defs 0x193 0 (packfile (sample_env sample_section)))
        (packfile (sample_env sample_section)))
      \<le> length (packfile (sample_env sample_section))"
    by (simp add: s)
  have 3: "cycles_count (drop (section_offset zc_defs 0x193 0 (packfile (sample_env (replicate 166266 0))))
      (packfile (sample_env (replicate 166266 0)))) \<le> 256"
    by (simp add: z)
  have 4: "section_offset zc_defs 0x193 0 (packfile (sample_env (replicate 166266 0))) + 2 +
      9 * cycles_count (drop (section_offset zc_defs 0x193 0 (packfile (sample_env (replicate 166266 0))))
        (packfile (sample_env (replicate 166266 0))))
      \<le> length (packfile (sample_env (replicate 166266 0)))"
    by (simp add: z)
  note w1 = cycles_loaded [where c = zc_defs and e = "sample_env sample_section" and build = 0
      and keepdata = True, OF a 1 2]
  note w2 = cycles_loaded [where c = zc_defs and e = "sample_env (replicate 166266 0)" and build = 0
      and keepdata = True, OF a 3 4]
  have p1: "returns qe_OK (readcolordata zc_defs (sample_env sample_section) 0x193 0 True)"
    "packfile (final (readcolordata zc_defs (sample_env sample_section) 0x193 0 True)) = []"
    "issued (sample_env sample_section)
       (readcolordata zc_defs (sample_env sample_section) 0x193 0 True) =
       [P_igetw, P_igetw, P_igetl] @ replicate 3373 (Pfread 48) @ replicate 256 (Pfread 17) @
       P_igetw # replicate 9 P_getc"
    using w1 by (simp_all add: s c)
  from w1 have t1: "\<And>i j. i < 256 \<Longrightarrow> j < 3 \<Longrightarrow>
      cycles (Misc (final (readcolordata zc_defs (sample_env sample_section) 0x193 0 True))) i j =
      (if i < 1
       then \<lparr>first = [1, 0, 10, 11, 12, 20, 21, 22, 30, 31, 32 :: byte] ! (2 + 9 * i + j),
             count = [1, 0, 10, 11, 12, 20, 21, 22, 30, 31, 32] ! (2 + 9 * i + 3 + j),
             speed = [1, 0, 10, 11, 12, 20, 21, 22, 30, 31, 32] ! (2 + 9 * i + 6 + j)\<rparr>
       else \<lparr>first = 0, count = 0, speed = 0\<rparr>)"
    by (simp add: s)
  from w2 have t2: "\<And>i j. i < 256 \<Longrightarrow> j < 3 \<Longrightarrow>
      cycles (Misc (final (readcolordata zc_defs (sample_env (replicate 166266 0)) 0x193 0 True))) i j =
      \<lparr>first = 0, count = 0, speed = 0\<rparr>"
    by (simp add: z)
  from w2 have p2: "returns qe_OK (readcolordata zc_defs (sample_env (replicate 166266 0)) 0x193 0 True)"
    by simp
  show ?thesis
    using a p1 p2 t1 [of 0 0] t1 [of 0 2] t1 [of 1 0] t1 [of 255 2] t2 [of 7 1]
    by (simp add: s z)
qed

subsection \<open>The palette names\<close>

text \<open>
  Claim C8. Let the version be above \<^verbatim>\<open>0x192\<close>, or \<^verbatim>\<open>0x192\<close> with a build from 76 on, and
  let the stream hold the whole section: the header if there is one, the colour records,
  \<open>n\<close> names of \<^verbatim>\<open>PALNAMESIZE\<close> bytes, where \<open>n\<close> is \<^verbatim>\<open>OLDMAXLEVELS\<close> for a sub-version
  below 3 and 512 otherwise, and the colour cycles if the version has them. Then the routine
  returns \<^verbatim>\<open>0\<close>, it has read exactly \<open>n\<close> names between the colour records and the
  cycles, and with \<^verbatim>\<open>keepdata\<close> true the name table holds the \<open>n\<close> names in its first
  \<open>n\<close> slots and zeros in every slot from \<open>n\<close> up to \<^verbatim>\<open>MAXLEVELS\<close>; with \<^verbatim>\<open>keepdata\<close>
  false it holds what it held. By \<open>decode_ok_iff\<close> the calls described are all the calls
  of this branch that return \<^verbatim>\<open>0\<close>.
\<close>

theorem names_loaded:
  fixes c :: zdefs and e :: "'a env" and version build :: word16 and keepdata :: bool
  defines "p \<equiv> packfile e"
  defines "s_version \<equiv> section_version version p"
  defines "n \<equiv> (if s_version < 3 then OLDMAXLEVELS c else 512)"
  defines "start \<equiv> header_size version + 48 * color_records c version build s_version"
  defines "r \<equiv> readcolordata c e version build keepdata"
  assumes "\<not> legacy_names version build"
    and "start + PALNAMESIZE c * n \<le> length p"
    and "version > 0x192 \<longrightarrow>
           cycles_count (drop (start + PALNAMESIZE c * n) p) \<le> 256 \<and>
           start + PALNAMESIZE c * n + 2 + 9 * cycles_count (drop (start + PALNAMESIZE c * n) p)
             \<le> length p"
  shows "returns qe_OK r \<and>
         issued e r =
           (if version > 0x192 then [P_igetw, P_igetw, P_igetl] else []) @
           replicate (color_records c version build s_version) (Pfread 48) @
           replicate n (Pfread (PALNAMESIZE c)) @
           (if version > 0x192
            then P_igetw # replicate (9 * cycles_count (drop (start + PALNAMESIZE c * n) p)) P_getc
            else []) \<and>
         palnames (final r) =
           (if keepdata
            then (\<lambda>i j. if j < PALNAMESIZE c \<and> i < n then p ! (start + i * PALNAMESIZE c + j)
                        else if j < PALNAMESIZE c \<and> i < MAXLEVELS c then 0
                        else palnames e i j)
            else palnames e)"
proof -
  have n: "n = names_count c (section_version version (packfile e))"
    by (simp add: n_def s_version_def p_def names_count_def)
  have off: "section_offset c version build (packfile e) = start + PALNAMESIZE c * n"
    using assms(6)
    by (simp add: section_offset_def start_def n s_version_def p_def names_size_def Let_def)
  have r: "r = Return qe_OK (cycles_done version keepdata (Misc e) (before_cycles c version build keepdata e))"
    unfolding r_def using assms(7,8)
    by (intro decode_ok) (simp_all add: off p_def)
  have st: "start \<le> length p" using assms(7) by simp
  have 1: "returns qe_OK r" by (simp add: r)
  have 2: "issued e r =
      (if version > 0x192 then [P_igetw, P_igetw, P_igetl] else []) @
      replicate (color_records c version build s_version) (Pfread 48) @
      replicate n (Pfread (PALNAMESIZE c)) @
      (if version > 0x192
       then P_igetw # replicate (9 * cycles_count (drop (start + PALNAMESIZE c * n) p)) P_getc
       else [])"
    using assms(6)
    by (simp add: r issued_Return before_cycles_calls off n s_version_def p_def)
  have 3: "palnames (final r) =
      (\<lambda>i j. if j < PALNAMESIZE c \<and> i < n then p ! (start + i * PALNAMESIZE c + j)
             else if j < PALNAMESIZE c \<and> i < MAXLEVELS c then 0
             else palnames e i j)" if keepdata
  proof -
    from that assms(6) have "palnames (final r) =
        clear_names c n (load_names (palnames e) (PALNAMESIZE c) 0 (drop start p) n)"
      by (simp add: r before_cycles_palnames n start_def s_version_def p_def)
    then show ?thesis by (simp only: loaded_names [OF st])
  qed
  have 4: "palnames (final r) = palnames e" if "\<not> keepdata"
    using that by (simp add: r)
  from 1 2 3 4 show ?thesis by simp
qed

text \<open>
  The theorem at a concrete call.
\<close>

theorem names_loaded_witness:
  "\<not> legacy_names 0x193 0 \<and> section_version 0x193 (packfile (sample_env sample_section)) < 3 \<and>
   header_size 0x193 + 48 * color_records zc_defs 0x193 0 0 + PALNAMESIZE zc_defs * OLDMAXLEVELS zc_defs
     \<le> length (packfile (sample_env sample_section)) \<and>
   returns qe_OK (readcolordata zc_defs (sample_env sample_section) 0x193 0 True) \<and>
   issued (sample_env sample_section)
     (readcolordata zc_defs (sample_env sample_section) 0x193 0 True) =
     [P_igetw, P_igetw, P_igetl] @ replicate 3373 (Pfread 48) @ replicate 256 (Pfread 17) @
     P_igetw # replicate 9 P_getc \<and>
   palnames (final (readcolordata zc_defs (sample_env sample_section) 0x193 0 True)) 0 0 = 1 \<and>
   palnames (final (readcolordata zc_defs (sample_env sample_section) 0x193 0 True)) 255 16 = 1 \<and>
   palnames (final (readcolordata zc_defs (sample_env sample_section) 0x193 0 True)) 256 0 = 0 \<and>
   palnames (final (readcolordata zc_defs (sample_env sample_section) 0x193 0 True)) 511 16 = 0 \<and>
   palnames (sample_env sample_section) 256 0 = 9"
proof -
  note s = sample_section_simps
  have a: "\<not> legacy_names 0x193 0" by (simp add: legacy_names_def)
  have c: "color_records zc_defs 0x193 0 0 = 3373" "header_size 0x193 = 8"
    by (simp_all add: color_records_def legacy_colors_def header_size_def)
  have d: "drop 166264 sample_section = [1, 0, 10, 11, 12, 20, 21, 22, 30, 31, 32]"
    by (rule s)
  have 1: "header_size 0x193 +
      48 * color_records zc_defs 0x193 0 (section_version 0x193 (packfile (sample_env sample_section))) +
      PALNAMESIZE zc_defs *
        (if section_version 0x193 (packfile (sample_env sample_section)) < 3
         then OLDMAXLEVELS zc_defs else 512)
      \<le> length (packfile (sample_env sample_section))"
    by (simp add: s c)
  have 2: "0x193 > (0x192 :: word16) \<longrightarrow>
      cycles_count (drop (header_size 0x193 +
          48 * color_records zc_defs 0x193 0 (section_version 0x193 (packfile (sample_env sample_section))) +
          PALNAMESIZE zc_defs *
            (if section_version 0x193 (packfile (sample_env sample_section)) < 3
             then OLDMAXLEVELS zc_defs else 512)) (packfile (sample_env sample_section))) \<le> 256 \<and>
      header_size 0x193 +
        48 * color_records zc_defs 0x193 0 (section_version 0x193 (packfile (sample_env sample_section))) +
        PALNAMESIZE zc_defs *
          (if section_version 0x193 (packfile (sample_env sample_section)) < 3
           then OLDMAXLEVELS zc_defs else 512) + 2 +
        9 * cycles_count (drop (header_size 0x193 +
          48 * color_records zc_defs 0x193 0 (section_version 0x193 (packfile (sample_env sample_section))) +
          PALNAMESIZE zc_defs *
            (if section_version 0x193 (packfile (sample_env sample_section)) < 3
             then OLDMAXLEVELS zc_defs else 512)) (packfile (sample_env sample_section)))
      \<le> length (packfile (sample_env sample_section))"
    by (simp add: s c)
  note w = names_loaded [where c = zc_defs and e = "sample_env sample_section" and version = "0x193"
      and build = 0 and keepdata = True, OF a 1 2]
  have n: "\<And>x. x < 4352 \<Longrightarrow> sample_section ! (161912 + x) = 1"
    by (simp add: sample_section_def nth_append)
  from w have p: "palnames (final (readcolordata zc_defs (sample_env sample_section) 0x193 0 True)) =
      (\<lambda>i j. if j < 17 \<and> i < 256 then sample_section ! (161912 + i * 17 + j)
             else if j < 17 \<and> i < 512 then 0 else 9)"
    by (simp add: s c cong: if_cong)
  from w have q: "returns qe_OK (readcolordata zc_defs (sample_env sample_section) 0x193 0 True)"
    "issued (sample_env sample_section)
       (readcolordata zc_defs (sample_env sample_section) 0x193 0 True) =
       [P_igetw, P_igetw, P_igetl] @ replicate 3373 (Pfread 48) @ replicate 256 (Pfread 17) @
       P_igetw # replicate 9 P_getc"
    by (simp_all add: s c)
  show ?thesis
    using a q n [of 0] n [of 4351]
    by (simp add: p s c add.assoc)
qed

subsection \<open>The bound of the cycle table\<close>

text \<open>
  Claim C9 fails on the code. The loop of line 180 runs up to the count read from the
  stream and line 184 stores through \<^verbatim>\<open>temp_misc.cycles[i]\<close> with no test of \<open>i\<close> against
  the 256 entries that line 165 zeroes. On a stream of ones (sub-version 257, 6701 colour
  records, 512 names, a cycle count of 257) the call does not return: it stores at index
  256.
\<close>

theorem cycle_index_reaches_256:
  "\<not> returned (readcolordata zc_defs (sample_env (replicate 400000 1)) 0x193 0 True) \<and>
   index (readcolordata zc_defs (sample_env (replicate 400000 1)) 0x193 0 True) = 256"
proof -
  have off: "section_offset zc_defs 0x193 0 (replicate 400000 1) = 330360"
    by (simp add: section_offset_def section_version_def header_size_def color_records_def
          names_size_def names_count_def legacy_colors_def legacy_names_def cat1)
  have "\<exists>e'. readcolordata zc_defs (sample_env (replicate 400000 1)) 0x193 0 True = Fault 256 e'"
    by (rule decode_fault) (simp_all add: off cycles_count_def cat1)
  then show ?thesis by (auto simp: returned_def)
qed

subsection \<open>The other fields of Misc\<close>

text \<open>
  Claim C10 fails on the code, by the defect of the preceding subsection: the loop of line
  180 has no bound on the index. The stream below is a whole section for version
  \<^verbatim>\<open>0x193\<close> whose cycle count is 257, with the nine bytes of every counted index and
  nothing after them. No read fails, so the code runs the loop to its end, returns \<^verbatim>\<open>0\<close>
  and, with \<^verbatim>\<open>keepdata\<close> true, copies the whole of \<^verbatim>\<open>temp_misc\<close> into \<^verbatim>\<open>*Misc\<close> (line 209).
  But the stores for index 256 are outside \<^verbatim>\<open>temp_misc.cycles\<close>: they go to what follows the
  cycles in the working copy, and the copy back carries them to the caller. In the model
  the run is neither of the two returns but the fault at index 256.
\<close>

theorem overlong_count_overruns_working_copy:
  "section_offset zc_defs 0x193 0 (packfile (sample_env (replicate 332675 1))) = 330360 \<and>
   cycles_count (drop 330360 (packfile (sample_env (replicate 332675 1)))) = 257 \<and>
   330360 + 2 + 9 * 257 = length (packfile (sample_env (replicate 332675 1))) \<and>
   \<not> returns qe_OK (readcolordata zc_defs (sample_env (replicate 332675 1)) 0x193 0 True) \<and>
   \<not> returns qe_invalid (readcolordata zc_defs (sample_env (replicate 332675 1)) 0x193 0 True) \<and>
   index (readcolordata zc_defs (sample_env (replicate 332675 1)) 0x193 0 True) = 256"
proof -
  have off: "section_offset zc_defs 0x193 0 (replicate 332675 1) = 330360"
    by (simp add: section_offset_def section_version_def header_size_def color_records_def
          names_size_def names_count_def legacy_colors_def legacy_names_def cat1)
  have n: "cycles_count (replicate 2315 1) = 257"
    by (simp add: cycles_count_def cat1)
  have "\<exists>e'. readcolordata zc_defs (sample_env (replicate 332675 1)) 0x193 0 True = Fault 256 e'"
    by (rule decode_fault) (simp_all add: off n)
  then show ?thesis by (auto simp: returns_def off n)
qed

text \<open>
  What does hold: in the model a call returns \<^verbatim>\<open>0\<close> only when no store leaves the cycles
  (by \<open>decode_ok_iff\<close>, for a version above \<^verbatim>\<open>0x192\<close>, only when the count is at most 256),
  and after such a call with \<^verbatim>\<open>keepdata\<close> true the fields of \<^verbatim>\<open>*Misc\<close> other than the cycles
  hold what they held before.
\<close>

theorem commit_keeps_other_fields:
  assumes "version > 0x192"
    and "returns qe_OK (readcolordata c e version build True)"
  shows "others (Misc (final (readcolordata c e version build True))) = others (Misc e)"
  using commit_others [OF refl assms] .

text \<open>
  The theorem at a concrete call.
\<close>

theorem commit_keeps_other_fields_witness:
  "(0x193 :: word16) > 0x192 \<and>
   returns qe_OK (readcolordata zc_defs (sample_env sample_section) 0x193 0 True) \<and>
   others (Misc (final (readcolordata zc_defs (sample_env sample_section) 0x193 0 True))) =
     others (Misc (sample_env sample_section))"
proof -
  have a: "(0x193 :: word16) > 0x192" by simp
  have r: "returns qe_OK (readcolordata zc_defs (sample_env sample_section) 0x193 0 True)"
    by (simp add: sample_decode)
  from commit_keeps_other_fields [OF a r] a r show ?thesis by simp
qed

end
